theory Spec2Isabelle
  imports Main
begin

section \<open>The Unicode property table generator (maint/GenerateUcd.py)\<close>

text \<open>
  The generator is a Python 3 batch script. Its integers are unbounded (\<open>int\<close>, or
  \<open>nat\<close> where a value is a length or a position), its lists are HOL lists, and every
  exception it can raise is a value of the type \<open>error\<close>: a function that can raise
  returns \<open>error + 'a\<close>, with \<open>Inl\<close> for the exception.
\<close>

datatype error = ValueError | OverflowError | IndexError | TypeError | NameError

subsection \<open>Some general parameters\<close>

definition MAX_UNICODE :: nat where
  "MAX_UNICODE = 0x110000"

definition NOTACHAR :: int where
  "NOTACHAR = 0xffffffff"

subsection \<open>get_type_size: the smallest C type for the values of a table\<close>

definition type_size :: "(string \<times> nat) list" where
  "type_size = [(''uint8_t'', 1), (''uint16_t'', 2), (''uint32_t'', 4),
     (''signed char'', 1), (''int16_t'', 2), (''int32_t'', 4)]"

definition limits :: "(int \<times> int) list" where
  "limits = [(0, 255), (0, 65535), (0, 4294967295), (-128, 127),
     (-32768, 32767), (-2147483648, 2147483647)]"

text \<open>
  The loop \<^verbatim>\<open>for num, (minlimit, maxlimit) in enumerate(limits)\<close> walks the limits with
  their positions; \<open>ladder_scan\<close> walks the limits paired with \<open>type_size[num]\<close>. Falling
  out of the loop is the \<^verbatim>\<open>raise OverflowError\<close>.
\<close>

fun ladder_scan :: "int \<Rightarrow> int \<Rightarrow> ((int \<times> int) \<times> (string \<times> nat)) list \<Rightarrow> error + (string \<times> nat)" where
  "ladder_scan minval maxval [] = Inl OverflowError"
| "ladder_scan minval maxval (((minlimit, maxlimit), ts) # rest) =
     (if minlimit \<le> minval \<and> maxval \<le> maxlimit then Inr ts
      else ladder_scan minval maxval rest)"

text \<open>\<^verbatim>\<open>min(table)\<close> and \<^verbatim>\<open>max(table)\<close> raise ValueError on an empty sequence.\<close>

definition get_type_size :: "int list \<Rightarrow> error + (string \<times> nat)" where
  "get_type_size table =
     (if table = [] then Inl ValueError
      else ladder_scan (Min (set table)) (Max (set table)) (zip limits type_size))"

text \<open>A table fits a pair of limits when every value lies between them.\<close>

definition fits :: "int \<times> int \<Rightarrow> int list \<Rightarrow> bool" where
  "fits lim table = (\<forall>x \<in> set table. fst lim \<le> x \<and> x \<le> snd lim)"

subsection \<open>get_tables_size: the total size of a list of tables\<close>

fun get_tables_size_from :: "nat \<Rightarrow> int list list \<Rightarrow> error + nat" where
  "get_tables_size_from total_size [] = Inr total_size"
| "get_tables_size_from total_size (table # tables) =
     (case get_type_size table of
        Inl e \<Rightarrow> Inl e
      | Inr (ty, sz) \<Rightarrow> get_tables_size_from (total_size + sz * length table) tables)"

definition get_tables_size :: "int list list \<Rightarrow> error + nat" where
  "get_tables_size tables = get_tables_size_from 0 tables"

subsection \<open>Python ranges and slices\<close>

text \<open>
  \<^verbatim>\<open>range(0, n, step)\<close> for a positive step holds \<open>0, step, 2 * step, ...\<close> below \<open>n\<close>;
  \<^verbatim>\<open>xs[i:j]\<close> for \<open>0 \<le> i \<le> j\<close> holds the elements at positions \<open>i\<close> to \<open>j - 1\<close> that
  exist (a slice never raises).
\<close>

definition range_step :: "nat \<Rightarrow> nat \<Rightarrow> nat list" where
  "range_step n step = map (\<lambda>k. k * step) [0..<(n + step - 1) div step]"

definition slice :: "'a list \<Rightarrow> nat \<Rightarrow> nat \<Rightarrow> 'a list" where
  "slice xs i j = take (j - i) (drop i xs)"

subsection \<open>compress_table: compress a table into the two stages\<close>

text \<open>
  The state of the loop is the dictionary \<open>blocks\<close> and the two lists \<open>stage1\<close> and
  \<open>stage2\<close>. The source computes \<^verbatim>\<open>start = len(stage2) / block_size\<close> with Python 3's
  true division, whose result is a float; \<open>stage2\<close> holds only whole blocks whenever a
  block is allocated (lemma \<open>compress_blocks_inv\<close> below), so the quotient is a whole
  number and is modelled by \<open>div\<close> on \<open>nat\<close>. \<^verbatim>\<open>range\<close> raises ValueError for a
  step of zero.
\<close>

type_synonym 'a compress_state = "('a list \<rightharpoonup> nat) \<times> nat list \<times> 'a list"

definition compress_block :: "nat \<Rightarrow> 'a list \<Rightarrow> 'a compress_state \<Rightarrow> 'a compress_state" where
  "compress_block block_size block st =
     (case st of (blocks, stage1, stage2) \<Rightarrow>
        (case blocks block of
           None \<Rightarrow>
             (let start = length stage2 div block_size
              in (blocks(block \<mapsto> start), stage1 @ [start], stage2 @ block))
         | Some start \<Rightarrow> (blocks, stage1 @ [start], stage2)))"

definition compress_step :: "'a list \<Rightarrow> nat \<Rightarrow> nat \<Rightarrow> 'a compress_state \<Rightarrow> 'a compress_state" where
  "compress_step table block_size i st =
     compress_block block_size (slice table i (i + block_size)) st"

definition compress_table :: "'a list \<Rightarrow> nat \<Rightarrow> error + (nat list \<times> 'a list)" where
  "compress_table table block_size =
     (if block_size = 0 then Inl ValueError
      else (case fold (compress_step table block_size)
                   (range_step (length table) block_size) (Map.empty, [], []) of
              (blocks, stage1, stage2) \<Rightarrow> Inr (stage1, stage2)))"

subsection \<open>combine_tables: the unique combinations of properties\<close>

text \<open>
  \<^verbatim>\<open>zip(*tables)\<close> yields, for each position below the length of the shortest table, the
  tuple of the tables' values there (and nothing for no table at all). The dictionary
  \<open>records\<close> keeps its keys in insertion order, which \<^verbatim>\<open>records.keys()\<close> and
  \<^verbatim>\<open>write_records\<close> read, so it is an association list that grows at its end.
\<close>

definition zip_star :: "'a list list \<Rightarrow> 'a list list" where
  "zip_star tables =
     (if tables = [] then []
      else map (\<lambda>c. map (\<lambda>t. t ! c) tables) [0..<Min (set (map length tables))])"

definition combine_step :: "'a list \<Rightarrow> ('a list \<times> nat) list \<times> nat list \<Rightarrow> ('a list \<times> nat) list \<times> nat list" where
  "combine_step t st =
     (case st of (records, index) \<Rightarrow>
        (case map_of records t of
           None \<Rightarrow> (records @ [(t, length records)], index @ [length records])
         | Some i \<Rightarrow> (records, index @ [i])))"

definition combine_tables :: "'a list list \<Rightarrow> nat list \<times> ('a list \<times> nat) list" where
  "combine_tables tables =
     (case fold combine_step (zip_star tables) ([], []) of (records, index) \<Rightarrow> (index, records))"

subsection \<open>write_records: the rows of the record table\<close>

text \<open>
  The rows written are the dictionary's items sorted by id (Python's sort is stable, as
  \<open>sort_key\<close> is), each with its position \<open>i\<close> in that order: a row is the tuple's
  fields followed by the comment \<open>i\<close>.
\<close>

definition write_records :: "('a list \<times> nat) list \<Rightarrow> ('a list \<times> nat) list" where
  "write_records records =
     map (\<lambda>(i, record). (fst record, i)) (enumerate 0 (sort_key snd records))"

subsection \<open>The search for the optimum block size\<close>

text \<open>
  The loop runs over \<^verbatim>\<open>[2 ** i for i in range(5,10)]\<close>. Its state is \<open>min_size\<close>, which
  starts at \<^verbatim>\<open>sys.maxsize\<close> (a parameter here: it depends on the platform), and the three
  names \<open>min_stage1\<close>, \<open>min_stage2\<close>, \<open>min_block_size\<close>, unbound (\<open>None\<close>) until the
  first assignment. \<open>record_size\<close> is computed before the loop and is a parameter.
\<close>

definition candidate_block_sizes :: "nat list" where
  "candidate_block_sizes = map (\<lambda>i. 2 ^ i) [5..<10]"

definition candidate_size :: "nat \<Rightarrow> nat \<Rightarrow> nat list \<Rightarrow> nat \<Rightarrow> error + (nat \<times> nat list \<times> nat list)" where
  "candidate_size n_records record_size table block_size =
     (let sz = n_records * record_size
      in (case compress_table table block_size of
            Inl e \<Rightarrow> Inl e
          | Inr (stage1, stage2) \<Rightarrow>
              (case get_tables_size [map int stage1, map int stage2] of
                 Inl e \<Rightarrow> Inl e
               | Inr ts \<Rightarrow> Inr (sz + ts, stage1, stage2))))"

type_synonym search_state = "nat \<times> (nat list \<times> nat list \<times> nat) option"

definition search_step :: "nat \<Rightarrow> nat \<Rightarrow> nat list \<Rightarrow> nat \<Rightarrow> search_state \<Rightarrow> error + search_state" where
  "search_step n_records record_size table block_size st =
     (case st of (min_size, retained) \<Rightarrow>
        (case candidate_size n_records record_size table block_size of
           Inl e \<Rightarrow> Inl e
         | Inr (sz, stage1, stage2) \<Rightarrow>
             (if sz < min_size then Inr (sz, Some (stage1, stage2, block_size))
              else Inr (min_size, retained))))"

fun fold_err :: "('a \<Rightarrow> 's \<Rightarrow> error + 's) \<Rightarrow> 'a list \<Rightarrow> 's \<Rightarrow> error + 's" where
  "fold_err f [] s = Inr s"
| "fold_err f (x # xs) s = (case f x s of Inl e \<Rightarrow> Inl e | Inr s' \<Rightarrow> fold_err f xs s')"

definition block_size_search :: "nat \<Rightarrow> nat \<Rightarrow> nat \<Rightarrow> nat list \<Rightarrow> error + search_state" where
  "block_size_search maxsize n_records record_size table =
     fold_err (search_step n_records record_size table) candidate_block_sizes (maxsize, None)"

subsection \<open>Notions the statements use\<close>

text \<open>
  \<open>rank xs x\<close> is the number of distinct elements of \<open>xs\<close> before the first occurrence
  of \<open>x\<close>, and \<open>blocks_of table block_size\<close> is the list of the blocks the loop of
  \<open>compress_table\<close> cuts.
\<close>

definition rank :: "'a list \<Rightarrow> 'a \<Rightarrow> nat" where
  "rank xs x = card (set (takeWhile (\<lambda>y. y \<noteq> x) xs))"

definition blocks_of :: "'a list \<Rightarrow> nat \<Rightarrow> 'a list list" where
  "blocks_of table block_size =
     map (\<lambda>i. slice table i (i + block_size)) (range_step (length table) block_size)"

subsection \<open>The sets of 10 digits\<close>

text \<open>
  The input is the list of the ranges \<open>(first, last)\<close> (the source's \<open>last\<close> is \<open>lastc\<close>
  here, \<open>last\<close> being a list function of HOL) that the regular expression finds
  on the lines of Scripts.txt tagged \<open>Nd\<close>, in file order. The inner loop is
  \<^verbatim>\<open>while first < last: digitsets.append(first + 9); first += 10\<close>.
\<close>

function digit_run :: "nat \<Rightarrow> nat \<Rightarrow> nat list \<Rightarrow> nat list" where
  "digit_run first lastc digitsets =
     (if first < lastc then digit_run (first + 10) lastc (digitsets @ [first + 9])
      else digitsets)"
  by pat_completeness auto
termination
  by (relation "measure (\<lambda>(first, lastc, digitsets). lastc - first)") auto

declare digit_run.simps [simp del]

text \<open>
  When the length of a range is not a multiple of ten, the source calls
  \<^verbatim>\<open>f.write("ERROR: ..." % (first, last), file=sys.stderr)\<close>, where \<open>f\<close> is the output
  file that \<^verbatim>\<open>open_output\<close> returned. The \<^verbatim>\<open>write\<close> method of a Python file object takes
  no keyword argument, so this call raises TypeError and nothing after it runs.
\<close>

definition digit_range :: "nat \<times> nat \<Rightarrow> nat list \<Rightarrow> error + nat list" where
  "digit_range r digitsets =
     (case r of (first, lastc) \<Rightarrow>
        (if (int lastc - int first + 1) mod 10 \<noteq> 0 then Inl TypeError
         else Inr (digit_run first lastc digitsets)))"

definition digitsets_of :: "(nat \<times> nat) list \<Rightarrow> error + nat list" where
  "digitsets_of ranges =
     (case fold_err digit_range ranges [] of
        Inl e \<Rightarrow> Inl e
      | Inr digitsets \<Rightarrow> Inr (sort digitsets))"

subsection \<open>The emoji override of the grapheme break property\<close>

text \<open>
  For each code point of an Extended_Pictographic range, the source prints a warning with
  \<^verbatim>\<open>print(..., file=sys.stderr)\<close> when the break property is not 'Other', then stores
  Extended_Pictographic. The two ids are positions in a list of the module
  GenerateCommon and are parameters here; the warnings printed are collected in a list.
  Reading \<^verbatim>\<open>break_props[i]\<close> beyond the table raises IndexError.
\<close>

definition emoji_point :: "nat \<Rightarrow> nat \<Rightarrow> nat \<Rightarrow> nat list \<times> (nat \<times> nat) list \<Rightarrow> error + (nat list \<times> (nat \<times> nat) list)" where
  "emoji_point other pictographic i st =
     (case st of (break_props, warnings) \<Rightarrow>
        (if i < length break_props then
           Inr (break_props[i := pictographic],
                if break_props ! i \<noteq> other then warnings @ [(i, break_props ! i)] else warnings)
         else Inl IndexError))"

definition emoji_range :: "nat \<Rightarrow> nat \<Rightarrow> nat \<times> nat \<Rightarrow> nat list \<times> (nat \<times> nat) list \<Rightarrow> error + (nat list \<times> (nat \<times> nat) list)" where
  "emoji_range other pictographic r st =
     (case r of (char, lastc) \<Rightarrow> fold_err (emoji_point other pictographic) [char..<lastc + 1] st)"

text \<open>
  The runs of a range whose length is a multiple of ten: one value per step of ten from
  \<open>first\<close>, each the start of the step plus 9.
\<close>

definition runs_of :: "nat \<times> nat \<Rightarrow> nat list" where
  "runs_of r = (case r of (first, lastc) \<Rightarrow>
     map (\<lambda>k. first + 10 * k + 9) [0..<(lastc + 1 - first) div 10])"

subsection \<open>read_table: a whole table in memory\<close>

text \<open>
  The input of \<open>read_table\<close> is the list of the data lines of a file, each already split
  into its range \<open>(char, last)\<close> and the field that \<open>get_value\<close> reads (opening the file,
  the version line and the regular expressions are left out). \<open>get_value\<close> may read and
  change global variables, so it takes and returns a state. The table starts as
  \<^verbatim>\<open>[default_value] * MAX_UNICODE\<close>; the length is the parameter \<open>n\<close>. A value is stored
  only where the table still holds the default; a position beyond the table raises
  IndexError.
\<close>

definition fill_point :: "'v \<Rightarrow> 'v \<Rightarrow> nat \<Rightarrow> 'v list \<Rightarrow> error + 'v list" where
  "fill_point default_value v i table =
     (if i < length table
      then Inr (if table ! i = default_value then table[i := v] else table)
      else Inl IndexError)"

definition read_line :: "('f \<Rightarrow> 's \<Rightarrow> error + ('v \<times> 's)) \<Rightarrow> 'v \<Rightarrow> nat \<times> nat \<times> 'f \<Rightarrow> 'v list \<times> 's \<Rightarrow> error + ('v list \<times> 's)" where
  "read_line get_value default_value line st =
     (case st of (table, g) \<Rightarrow>
        (case line of (char, lastc, field) \<Rightarrow>
           (case get_value field g of
              Inl e \<Rightarrow> Inl e
            | Inr (v, g') \<Rightarrow>
                (case fold_err (fill_point default_value v) [char..<lastc + 1] table of
                   Inl e \<Rightarrow> Inl e
                 | Inr table' \<Rightarrow> Inr (table', g')))))"

definition read_table :: "('f \<Rightarrow> 's \<Rightarrow> error + ('v \<times> 's)) \<Rightarrow> 'v \<Rightarrow> nat \<Rightarrow> (nat \<times> nat \<times> 'f) list \<Rightarrow> 's \<Rightarrow> error + ('v list \<times> 's)" where
  "read_table get_value default_value n lines g =
     fold_err (read_line get_value default_value) lines (replicate n default_value, g)"

subsection \<open>get_script_extension and the table scriptx\<close>

text \<open>
  \<^verbatim>\<open>s.split(' ')\<close> cuts a string at every single space; \<^verbatim>\<open>xs.index(x)\<close> is the first
  position of \<open>x\<close> and raises ValueError when there is none. The globals of
  \<open>get_script_extension\<close> are \<open>script_lists\<close> and \<open>last_script_extension\<close>; the list
  \<open>script_abbrevs\<close> and the number \<open>script_list_item_size\<close> come from the module
  GenerateCommon and are parameters.
\<close>

fun split_space :: "string \<Rightarrow> string list" where
  "split_space [] = [[]]"
| "split_space (c # cs) =
     (if c = CHR '' '' then [] # split_space cs
      else (case split_space cs of [] \<Rightarrow> [[c]] | w # ws \<Rightarrow> (c # w) # ws))"

fun index_of :: "'a list \<Rightarrow> 'a \<Rightarrow> nat option" where
  "index_of [] x = None"
| "index_of (y # ys) x = (if y = x then Some 0 else map_option Suc (index_of ys x))"

definition get_script_extension :: "string list \<Rightarrow> nat \<Rightarrow> string \<Rightarrow> nat list list \<times> string \<Rightarrow> error + (int \<times> (nat list list \<times> string))" where
  "get_script_extension script_abbrevs script_list_item_size field g =
     (case g of (script_lists, last_script_extension) \<Rightarrow>
        (let offset = int (length script_lists) * int script_list_item_size
         in if last_script_extension = field
            then Inr (offset - int script_list_item_size, (script_lists, last_script_extension))
            else (case those (map (index_of script_abbrevs) (split_space field)) of
                    None \<Rightarrow> Inl ValueError
                  | Some ids \<Rightarrow> Inr (offset, (script_lists @ [ids], field)))))"

text \<open>
  \<^verbatim>\<open>script_lists = [[]]\<close>, \<^verbatim>\<open>last_script_extension = ""\<close>, and
  \<^verbatim>\<open>scriptx = read_table('Unicode.tables/ScriptExtensions.txt', get_script_extension, 0)\<close>.
\<close>

definition scriptx_of :: "string list \<Rightarrow> nat \<Rightarrow> nat \<Rightarrow> (nat \<times> nat \<times> string) list \<Rightarrow> error + (int list \<times> (nat list list \<times> string))" where
  "scriptx_of script_abbrevs script_list_item_size n lines =
     read_table (get_script_extension script_abbrevs script_list_item_size) 0 n lines
       ([[]], [])"

subsection \<open>The unique lists of Boolean properties\<close>

text \<open>
  \<open>bprops\<close> holds, for each code point, the list of the ids of its Boolean properties as
  the files gave them. The inner loop
  \<^verbatim>\<open>for i in range(len(bool_props_lists)): if s == set(bool_props_lists[i]): break\<close>
  is \<open>find_set\<close>, which returns the position of the break; the \<^verbatim>\<open>else\<close> of the loop
  appends the list and adds one to the last \<open>i\<close> of the loop, which is unbound
  (NameError) when the loop did not run at all.
\<close>

fun find_set :: "nat set \<Rightarrow> nat list list \<Rightarrow> nat \<Rightarrow> nat option" where
  "find_set s [] i = None"
| "find_set s (l # ls) i = (if s = set l then Some i else find_set s ls (Suc i))"

definition bool_props_step :: "nat list list \<Rightarrow> nat \<Rightarrow> nat list \<times> nat list list \<Rightarrow> error + (nat list \<times> nat list list)" where
  "bool_props_step bprops c st =
     (case st of (bool_props, bool_props_lists) \<Rightarrow>
        (if c < length bprops then
           (case find_set (set (bprops ! c)) bool_props_lists 0 of
              Some i \<Rightarrow> Inr (bool_props[c := i], bool_props_lists)
            | None \<Rightarrow>
                (if bool_props_lists = [] then Inl NameError
                 else Inr (bool_props[c := length bool_props_lists - 1 + 1],
                           bool_props_lists @ [bprops ! c])))
         else Inl IndexError))"

definition dedup_bool_props :: "nat \<Rightarrow> nat list list \<Rightarrow> error + (nat list \<times> nat list list)" where
  "dedup_bool_props n bprops =
     fold_err (bool_props_step bprops) [0..<n] (replicate n 0, [[]])"

subsection \<open>Python list indexing\<close>

text \<open>
  \<^verbatim>\<open>xs[i]\<close> and \<^verbatim>\<open>xs[i] = v\<close> count a negative index from the end of the list and raise
  IndexError outside \<open>-len(xs) \<le> i < len(xs)\<close>.
\<close>

definition py_index :: "'a list \<Rightarrow> int \<Rightarrow> nat option" where
  "py_index xs i =
     (if 0 \<le> i \<and> i < int (length xs) then Some (nat i)
      else if - int (length xs) \<le> i \<and> i < 0 then Some (nat (i + int (length xs)))
      else None)"

definition py_get :: "'a list \<Rightarrow> int \<Rightarrow> error + 'a" where
  "py_get xs i = (case py_index xs i of None \<Rightarrow> Inl IndexError | Some j \<Rightarrow> Inr (xs ! j))"

definition py_set :: "'a list \<Rightarrow> int \<Rightarrow> 'a \<Rightarrow> error + 'a list" where
  "py_set xs i v = (case py_index xs i of None \<Rightarrow> Inl IndexError | Some j \<Rightarrow> Inr (xs[j := v]))"

subsection \<open>The return offsets of other_case\<close>

text \<open>
  \<^verbatim>\<open>if other_case[c] != 0 and other_case[c + other_case[c]] == 0:
    other_case[c + other_case[c]] = -other_case[c]\<close>, for every \<open>c\<close> in
  \<^verbatim>\<open>range(MAX_UNICODE)\<close>; the bound of the range is the parameter \<open>n\<close>. The second test is
  evaluated only when the first holds.
\<close>

definition repair_step :: "nat \<Rightarrow> int list \<Rightarrow> error + int list" where
  "repair_step c other_case =
     (case py_get other_case (int c) of
        Inl e \<Rightarrow> Inl e
      | Inr d \<Rightarrow>
          (if d \<noteq> 0 then
             (case py_get other_case (int c + d) of
                Inl e \<Rightarrow> Inl e
              | Inr d' \<Rightarrow>
                  (if d' = 0 then py_set other_case (int c + d) (- d) else Inr other_case))
           else Inr other_case))"

definition repair :: "nat \<Rightarrow> int list \<Rightarrow> error + int list" where
  "repair n other_case = fold_err repair_step [0..<n] other_case"

subsection \<open>The caseless equivalence sets\<close>

text \<open>
  \<open>scan_found\<close> is the loop \<^verbatim>\<open>for x in s: if x == c or x == o or x == t: found = 1\<close>
  after \<^verbatim>\<open>found = 0\<close>. \<open>add_member\<close> is the body of \<^verbatim>\<open>for y in [c, o, t]\<close>: its inner loop
  sets \<open>found\<close> when \<open>y\<close> is in \<open>s\<close>, and \<open>y\<close> is appended when \<open>found\<close> is not set. The
  source sets \<^verbatim>\<open>found = 0\<close> once, before the loop over \<open>y\<close>, so \<open>found\<close> is carried from
  one \<open>y\<close> to the next. \<open>unite_set\<close> is the body of \<^verbatim>\<open>for s in caseless_sets\<close>; the sets
  are changed in place, so the loop rebuilds the list in its order.
\<close>

definition scan_found :: "int list \<Rightarrow> int \<Rightarrow> int \<Rightarrow> int \<Rightarrow> bool" where
  "scan_found s c o' t =
     fold (\<lambda>x found. if x = c \<or> x = o' \<or> x = t then True else found) s False"

definition add_member :: "int \<Rightarrow> int list \<times> bool \<Rightarrow> int list \<times> bool" where
  "add_member y st =
     (case st of (s, found) \<Rightarrow>
        (let found' = fold (\<lambda>x f. if x = y then True else f) s found
         in (if \<not> found' then s @ [y] else s, found')))"

definition add_new :: "int list \<Rightarrow> int \<Rightarrow> int \<Rightarrow> int \<Rightarrow> int list" where
  "add_new s c o' t = fst (fold add_member [c, o', t] (s, False))"

definition unite_set :: "int \<Rightarrow> int \<Rightarrow> int \<Rightarrow> int list \<Rightarrow> int list list \<times> bool \<Rightarrow> int list list \<times> bool" where
  "unite_set c o' t s st =
     (case st of (sets, appended) \<Rightarrow>
        (if scan_found s c o' t then (sets @ [add_new s c o' t], True)
         else (sets @ [s], appended)))"

text \<open>
  \<open>unite\<close> is what the source does once it has the three characters \<open>c\<close>, \<open>o\<close> and \<open>t\<close>:
  the scan of the existing sets, then the new set when nothing was added to an existing
  one.
\<close>

definition unite :: "int \<Rightarrow> int \<Rightarrow> int \<Rightarrow> int list list \<Rightarrow> int list list" where
  "unite c o' t caseless_sets =
     (case fold (unite_set c o' t) caseless_sets ([], False) of
        (sets, appended) \<Rightarrow> (if \<not> appended then sets @ [[c, o', t]] else sets))"

definition caseless_step :: "int list \<Rightarrow> nat \<Rightarrow> int list list \<Rightarrow> error + int list list" where
  "caseless_step other_case c caseless_sets =
     (case py_get other_case (int c) of
        Inl e \<Rightarrow> Inl e
      | Inr d \<Rightarrow>
          (let o' = int c + d
           in (case py_get other_case o' of
                 Inl e \<Rightarrow> Inl e
               | Inr d' \<Rightarrow>
                   (if d' \<noteq> - d then Inr (unite (int c) o' (o' + d') caseless_sets)
                    else Inr caseless_sets))))"

definition caseless_sets_of :: "nat \<Rightarrow> int list \<Rightarrow> error + int list list" where
  "caseless_sets_of n other_case = fold_err (caseless_step other_case) [0..<n] []"

subsection \<open>The offsets of the caseless sets\<close>

definition offsets_set :: "int list \<Rightarrow> int list \<times> nat \<Rightarrow> error + (int list \<times> nat)" where
  "offsets_set s st =
     (case st of (caseless_offsets, offset) \<Rightarrow>
        (case fold_err (\<lambda>x co. py_set co x (int offset)) s caseless_offsets of
           Inl e \<Rightarrow> Inl e
         | Inr co \<Rightarrow> Inr (co, offset + (length s + 1))))"

definition caseless_offsets_of :: "nat \<Rightarrow> int list list \<Rightarrow> error + int list" where
  "caseless_offsets_of n caseless_sets =
     (case fold_err offsets_set caseless_sets (replicate n 0, 1) of
        Inl e \<Rightarrow> Inl e
      | Inr (caseless_offsets, offset) \<Rightarrow> Inr caseless_offsets)"

subsection \<open>The table of caseless sets that is written\<close>

text \<open>
  The table starts with \<open>NOTACHAR\<close>; then each set is written sorted, followed by
  \<open>NOTACHAR\<close>.
\<close>

definition ucd_caseless_sets :: "int list list \<Rightarrow> int list" where
  "ucd_caseless_sets caseless_sets =
     NOTACHAR # concat (map (\<lambda>s. sort s @ [NOTACHAR]) caseless_sets)"

text \<open>The three steps at once: the repaired table, the sets and the offsets.\<close>

definition caseless :: "nat \<Rightarrow> int list \<Rightarrow> error + (int list \<times> int list list \<times> int list)" where
  "caseless n other_case =
     (case repair n other_case of
        Inl e \<Rightarrow> Inl e
      | Inr oc \<Rightarrow>
          (case caseless_sets_of n oc of
             Inl e \<Rightarrow> Inl e
           | Inr sets \<Rightarrow>
               (case caseless_offsets_of n sets of
                  Inl e \<Rightarrow> Inl e
                | Inr offs \<Rightarrow> Inr (oc, sets, offs))))"

subsection \<open>Notions the statements on caseless sets use\<close>

text \<open>
  Two code points are adjacent in the case-delta graph when the delta of one leads to the
  other (in either direction), and within two hops when they are equal, adjacent, or
  both adjacent to a third code point below \<open>n\<close>. \<open>set_offset sets k\<close> is the offset that
  the loop over the sets holds when it reaches set \<open>k\<close>. A table of deltas is \<open>folded\<close>
  when every non-zero delta leads to a code point of the table whose own delta is zero,
  as the deltas read from CaseFolding.txt do when the folded form of a character folds
  to itself.
\<close>

definition adjacent :: "int list \<Rightarrow> int \<Rightarrow> int \<Rightarrow> bool" where
  "adjacent oc a b =
     ((0 \<le> a \<and> a < int (length oc) \<and> a + oc ! nat a = b) \<or>
      (0 \<le> b \<and> b < int (length oc) \<and> b + oc ! nat b = a))"

definition within_two :: "int list \<Rightarrow> int \<Rightarrow> int \<Rightarrow> bool" where
  "within_two oc a b =
     (a = b \<or> adjacent oc a b \<or>
      list_ex (\<lambda>z. adjacent oc a (int z) \<and> adjacent oc (int z) b) [0..<length oc])"

definition set_offset :: "int list list \<Rightarrow> nat \<Rightarrow> nat" where
  "set_offset sets k = 1 + sum_list (map (\<lambda>s. length s + 1) (take k sets))"

definition folded :: "nat \<Rightarrow> int list \<Rightarrow> bool" where
  "folded n oc =
     (length oc = n \<and>
      list_all (\<lambda>c. oc ! c = 0 \<or>
         (0 \<le> int c + oc ! c \<and> int c + oc ! c < int n \<and> oc ! nat (int c + oc ! c) = 0))
        [0..<n])"

subsection \<open>Loop invariants\<close>

text \<open>
  After the blocks \<open>bs\<close>, all of the block size but possibly the last, the loop of
  \<open>compress_table\<close> holds this state.
\<close>

definition compress_inv :: "nat \<Rightarrow> 'a list list \<Rightarrow> 'a compress_state \<Rightarrow> bool" where
  "compress_inv B bs st =
     (case st of (blocks, s1, s2) \<Rightarrow>
        s1 = map (rank bs) bs \<and>
        (\<forall>b. blocks b = (if b \<in> set bs then Some (rank bs b) else None)) \<and>
        (\<forall>b \<in> set bs. rank bs b * B + length b \<le> length s2 \<and>
           take (length b) (drop (rank bs b * B) s2) = b) \<and>
        ((\<forall>b \<in> set bs. length b = B) \<longrightarrow> length s2 = card (set bs) * B) \<and>
        set s2 \<subseteq> \<Union> (set ` set bs))"

text \<open>After the tuples \<open>rows\<close>, the loop of \<open>combine_tables\<close> holds this state.\<close>

definition combine_inv :: "'a list list \<Rightarrow> ('a list \<times> nat) list \<times> nat list \<Rightarrow> bool" where
  "combine_inv rows st =
     (case st of (records, index) \<Rightarrow>
        index = map (rank rows) rows \<and>
        map snd records = [0..<length records] \<and>
        distinct (map fst records) \<and>
        length records = card (set rows) \<and>
        (\<forall>t. map_of records t = (if t \<in> set rows then Some (rank rows t) else None)))"

text \<open>After the code points below \<open>k\<close>, the loop over the Boolean property lists holds this state.\<close>

definition bool_inv :: "nat \<Rightarrow> nat list list \<Rightarrow> nat \<Rightarrow> nat list \<times> nat list list \<Rightarrow> bool" where
  "bool_inv n bprops k st =
     (case st of (bp, bls) \<Rightarrow>
        length bp = n \<and> bls \<noteq> [] \<and> bls ! 0 = [] \<and>
        (\<forall>i < length bls. \<forall>j < length bls. set (bls ! i) = set (bls ! j) \<longrightarrow> i = j) \<and>
        (\<forall>c < k. bp ! c < length bls \<and> set (bls ! (bp ! c)) = set (bprops ! c)))"

text \<open>
  After the code points below \<open>k\<close>, the loop that sets the return offsets has changed a
  folded table \<open>oc\<close> into a table \<open>oc'\<close> of this kind: the non-zero deltas are kept, a
  zero delta is still zero or leads back to a code point that leads here, and the targets
  of the code points below \<open>k\<close> have a delta.
\<close>

definition repaired :: "nat \<Rightarrow> int list \<Rightarrow> int list \<Rightarrow> nat \<Rightarrow> bool" where
  "repaired n oc oc' k =
     (length oc' = n \<and>
      (\<forall>c < n. oc ! c \<noteq> 0 \<longrightarrow> oc' ! c = oc ! c) \<and>
      (\<forall>h < n. oc ! h = 0 \<longrightarrow>
         oc' ! h = 0 \<or> (\<exists>c < n. oc ! c \<noteq> 0 \<and> int c + oc ! c = int h \<and> oc' ! h = - (oc ! c))) \<and>
      (\<forall>c < k. oc ! c \<noteq> 0 \<longrightarrow> oc' ! nat (int c + oc ! c) \<noteq> 0))"

text \<open>
  A set is a star of the folded table when it has no repetition and holds one code point
  \<open>h\<close> with delta zero, every other member leading to \<open>h\<close>. The sets found so far are
  stars and pairwise disjoint.
\<close>

definition star :: "nat \<Rightarrow> int list \<Rightarrow> int list \<Rightarrow> bool" where
  "star n oc s =
     (distinct s \<and>
      (\<exists>h < n. oc ! h = 0 \<and> int h \<in> set s \<and>
         (\<forall>x \<in> set s. x = int h \<or> (\<exists>c < n. x = int c \<and> oc ! c \<noteq> 0 \<and> int c + oc ! c = int h))))"

definition classes_inv :: "nat \<Rightarrow> int list \<Rightarrow> int list list \<Rightarrow> bool" where
  "classes_inv n oc sets =
     ((\<forall>s \<in> set sets. star n oc s) \<and>
      (\<forall>i < length sets. \<forall>j < length sets. i \<noteq> j \<longrightarrow> set (sets ! i) \<inter> set (sets ! j) = {}))"

text \<open>The members a star with centre \<open>h\<close> may have: \<open>h\<close> and the code points that lead to \<open>h\<close>.\<close>

definition member_of :: "nat \<Rightarrow> int list \<Rightarrow> nat \<Rightarrow> int \<Rightarrow> bool" where
  "member_of n oc h x =
     (x = int h \<or> (\<exists>c < n. x = int c \<and> oc ! c \<noteq> 0 \<and> int c + oc ! c = int h))"

section \<open>Width selection\<close>

lemma fits_Min_Max:
  assumes "table \<noteq> []"
  shows "fits (lo, hi) table \<longleftrightarrow> lo \<le> Min (set table) \<and> Max (set table) \<le> hi"
  using assms by (auto simp: fits_def)

lemma Min_le_Max_list:
  assumes "table \<noteq> []"
  shows "Min (set table) \<le> Max (set table)"
  using assms by (simp add: Min_le_iff)

lemma ladder_unfold:
  "ladder_scan m M (zip limits type_size) =
     (if 0 \<le> m \<and> M \<le> 255 then Inr (''uint8_t'', 1)
      else if 0 \<le> m \<and> M \<le> 65535 then Inr (''uint16_t'', 2)
      else if 0 \<le> m \<and> M \<le> 4294967295 then Inr (''uint32_t'', 4)
      else if -128 \<le> m \<and> M \<le> 127 then Inr (''signed char'', 1)
      else if -32768 \<le> m \<and> M \<le> 32767 then Inr (''int16_t'', 2)
      else if -2147483648 \<le> m \<and> M \<le> 2147483647 then Inr (''int32_t'', 4)
      else Inl OverflowError)"
  by (simp add: limits_def type_size_def)

lemma nth6_all: "(\<forall>j<6. P (j::nat)) \<longleftrightarrow> P 0 \<and> P 1 \<and> P 2 \<and> P 3 \<and> P 4 \<and> P 5"
proof -
  have "j < 6 \<longleftrightarrow> j = 0 \<or> j = 1 \<or> j = 2 \<or> j = 3 \<or> j = 4 \<or> j = 5" for j :: nat
    by arith
  then show ?thesis by auto
qed

lemma nth6_ex: "(\<exists>j<6. P (j::nat)) \<longleftrightarrow> P 0 \<or> P 1 \<or> P 2 \<or> P 3 \<or> P 4 \<or> P 5"
  using nth6_all [of "\<lambda>j. \<not> P j"] by blast

text \<open>
  Claim C8. For a non-empty table, when some type of the ladder (unsigned 8, 16, 32 bits,
  then signed 8, 16, 32 bits) holds every value, \<open>get_type_size\<close> returns the first
  such type of the ladder, and no type of the ladder that holds every value has a smaller
  byte width; when no type of the ladder holds every value, it raises OverflowError.
\<close>

theorem get_type_size_narrowest:
  assumes "table \<noteq> []"
  shows "((\<exists>i<6. fits (limits ! i) table) \<longrightarrow>
           (\<exists>i<6. get_type_size table = Inr (type_size ! i) \<and> fits (limits ! i) table \<and>
              (\<forall>j<i. \<not> fits (limits ! j) table) \<and>
              (\<forall>j<6. fits (limits ! j) table \<longrightarrow> snd (type_size ! i) \<le> snd (type_size ! j)))) \<and>
         ((\<forall>i<6. \<not> fits (limits ! i) table) \<longrightarrow> get_type_size table = Inl OverflowError)"
proof -
  define m where "m = Min (set table)"
  define M where "M = Max (set table)"
  have mM: "m \<le> M" unfolding m_def M_def by (rule Min_le_Max_list [OF assms])
  have f: "\<And>lo hi. fits (lo, hi) table \<longleftrightarrow> lo \<le> m \<and> M \<le> hi"
    unfolding m_def M_def by (rule fits_Min_Max [OF assms])
  have g: "get_type_size table = ladder_scan m M (zip limits type_size)"
    using assms by (simp add: get_type_size_def m_def M_def)
  have l: "limits ! 0 = (0, 255)" "limits ! 1 = (0, 65535)" "limits ! 2 = (0, 4294967295)"
    "limits ! 3 = (-128, 127)" "limits ! 4 = (-32768, 32767)"
    "limits ! 5 = (-2147483648, 2147483647)"
    by (simp_all add: limits_def)
  have l': "limits ! Suc 0 = (0, 65535)" "limits ! Suc (Suc 0) = (0, 4294967295)"
    "limits ! Suc (Suc (Suc 0)) = (-128, 127)" "limits ! Suc (Suc (Suc (Suc 0))) = (-32768, 32767)"
    by (simp_all add: limits_def)
  have t: "type_size ! 0 = (''uint8_t'', 1)" "type_size ! 1 = (''uint16_t'', 2)"
    "type_size ! 2 = (''uint32_t'', 4)" "type_size ! 3 = (''signed char'', 1)"
    "type_size ! 4 = (''int16_t'', 2)" "type_size ! 5 = (''int32_t'', 4)"
    by (simp_all add: type_size_def)
  show ?thesis
    unfolding nth6_all nth6_ex g ladder_unfold l t f using mM
    by (auto simp: less_Suc_eq numeral_eq_Suc l l' f)
qed


theorem get_type_size_narrowest_witness:
  "(\<exists>i<6. get_type_size [-1, 200] = Inr (type_size ! i) \<and> fits (limits ! i) [-1, 200] \<and>
      (\<forall>j<i. \<not> fits (limits ! j) [-1, 200]) \<and>
      (\<forall>j<6. fits (limits ! j) [-1, 200] \<longrightarrow> snd (type_size ! i) \<le> snd (type_size ! j))) \<and>
   get_type_size [-1, 4294967295] = Inl OverflowError"
proof -
  have a: "\<exists>i<6. fits (limits ! i) [-1, 200]"
    by (rule exI [of _ 4]) (simp add: fits_def limits_def)
  have b: "\<forall>i<6. \<not> fits (limits ! i) [-1, 4294967295]"
    unfolding nth6_all by (simp add: fits_def limits_def)
  show ?thesis
    using get_type_size_narrowest [of "[-1, 200]"] get_type_size_narrowest [of "[-1, 4294967295]"] a b
    by simp
qed

section \<open>Interning: ranks of first occurrences\<close>

lemma rank_append_mem: "x \<in> set xs \<Longrightarrow> rank (xs @ ys) x = rank xs x"
  by (simp add: rank_def takeWhile_append1)

lemma rank_append_new: "x \<notin> set xs \<Longrightarrow> rank (xs @ [x]) x = card (set xs)"
proof -
  assume "x \<notin> set xs"
  then have "takeWhile (\<lambda>y. y \<noteq> x) (xs @ [x]) = xs @ takeWhile (\<lambda>y. y \<noteq> x) [x]"
    by (intro takeWhile_append2) auto
  then show ?thesis by (simp add: rank_def)
qed

lemma rank_less:
  assumes "x \<in> set xs"
  shows "rank xs x < card (set xs)"
proof -
  have "x \<notin> set (takeWhile (\<lambda>y. y \<noteq> x) xs)"
    by (auto dest: set_takeWhileD)
  moreover have "set (takeWhile (\<lambda>y. y \<noteq> x) xs) \<subseteq> set xs"
    by (auto dest: set_takeWhileD)
  ultimately have "set (takeWhile (\<lambda>y. y \<noteq> x) xs) \<subset> set xs"
    using assms by blast
  then show ?thesis
    unfolding rank_def by (intro psubset_card_mono) simp_all
qed

lemma rank_inj:
  "a \<in> set xs \<Longrightarrow> b \<in> set xs \<Longrightarrow> rank xs a = rank xs b \<Longrightarrow> a = b"
proof (induction xs rule: rev_induct)
  case Nil
  then show ?case by simp
next
  case (snoc x xs)
  show ?case
  proof (cases "x \<in> set xs")
    case True
    with snoc.prems have "a \<in> set xs" "b \<in> set xs" by auto
    moreover from this snoc.prems have "rank xs a = rank xs b" by (simp add: rank_append_mem)
    ultimately show ?thesis by (rule snoc.IH)
  next
    case False
    note new = rank_append_new [OF False]
    show ?thesis
    proof (cases "a = x")
      case ax: True
      show ?thesis
      proof (cases "b = x")
        case True
        with ax show ?thesis by simp
      next
        case False
        with snoc.prems have "b \<in> set xs" by simp
        then have "rank (xs @ [x]) b < card (set xs)"
          by (simp add: rank_append_mem rank_less)
        with snoc.prems ax new show ?thesis by simp
      qed
    next
      case nax: False
      with snoc.prems have am: "a \<in> set xs" by simp
      show ?thesis
      proof (cases "b = x")
        case True
        from am have "rank (xs @ [x]) a < card (set xs)"
          by (simp add: rank_append_mem rank_less)
        with snoc.prems True new show ?thesis by simp
      next
        case False
        with snoc.prems have "b \<in> set xs" by simp
        with am snoc.prems have "rank xs a = rank xs b" by (simp add: rank_append_mem)
        with am \<open>b \<in> set xs\<close> show ?thesis by (rule snoc.IH)
      qed
    qed
  qed
qed

lemma length_takeWhile_le_nth:
  assumes "i < length xs" and "\<not> P (xs ! i)"
  shows "length (takeWhile P xs) \<le> i"
proof (rule ccontr)
  assume "\<not> length (takeWhile P xs) \<le> i"
  then have lt: "i < length (takeWhile P xs)" by simp
  then have "takeWhile P xs ! i = xs ! i" by (rule takeWhile_nth)
  moreover from lt have "takeWhile P xs ! i \<in> set (takeWhile P xs)" by simp
  ultimately have "P (xs ! i)" by (auto dest: set_takeWhileD)
  with assms show False by simp
qed

lemma rank_nth_le:
  assumes "i < length xs"
  shows "rank xs (xs ! i) \<le> i"
proof -
  have "rank xs (xs ! i) \<le> length (takeWhile (\<lambda>y. y \<noteq> xs ! i) xs)"
    unfolding rank_def by (rule card_length)
  also have "\<dots> \<le> i" using assms by (intro length_takeWhile_le_nth) simp_all
  finally show ?thesis .
qed

section \<open>The loop of compress_table\<close>

lemma compress_inv_step:
  assumes B: "0 < B"
    and inv: "compress_inv B bs st"
    and full: "\<forall>x \<in> set bs. length x = B"
  shows "compress_inv B (bs @ [b]) (compress_block B b st)"
proof -
  obtain blocks s1 s2 where st: "st = (blocks, s1, s2)" by (cases st) auto
  from inv st have s1: "s1 = map (rank bs) bs"
    and bl: "\<And>x. blocks x = (if x \<in> set bs then Some (rank bs x) else None)"
    and pos: "\<And>x. x \<in> set bs \<Longrightarrow> rank bs x * B + length x \<le> length s2 \<and>
           take (length x) (drop (rank bs x * B) s2) = x"
    and len: "length s2 = card (set bs) * B"
    and sub: "set s2 \<subseteq> \<Union> (set ` set bs)"
    using full by (auto simp: compress_inv_def)
  show ?thesis
  proof (cases "b \<in> set bs")
    case True
    then have r: "\<And>x. x \<in> set bs \<Longrightarrow> rank (bs @ [b]) x = rank bs x"
      by (simp add: rank_append_mem)
    have set_eq: "set (bs @ [b]) = set bs" using True by auto
    from True have step: "compress_block B b st = (blocks, s1 @ [rank bs b], s2)"
      by (simp add: compress_block_def st bl)
    have 1: "s1 @ [rank bs b] = map (rank (bs @ [b])) (bs @ [b])"
      using s1 r True by simp
    have 2: "\<forall>x. blocks x =
        (if x \<in> set (bs @ [b]) then Some (rank (bs @ [b]) x) else None)"
      unfolding set_eq using bl r by simp
    have 3: "\<forall>x \<in> set (bs @ [b]). rank (bs @ [b]) x * B + length x \<le> length s2 \<and>
           take (length x) (drop (rank (bs @ [b]) x * B) s2) = x"
      unfolding set_eq using pos r by simp
    have 4: "(\<forall>x \<in> set (bs @ [b]). length x = B) \<longrightarrow>
        length s2 = card (set (bs @ [b])) * B"
      unfolding set_eq using len by simp
    have 5: "set s2 \<subseteq> \<Union> (set ` set (bs @ [b]))"
      using sub by auto
    show ?thesis
      unfolding step compress_inv_def prod.case by (intro conjI 1 2 3 4 5)
  next
    case False
    have r: "\<And>x. x \<in> set bs \<Longrightarrow> rank (bs @ [b]) x = rank bs x"
      by (simp add: rank_append_mem)
    have rb: "rank (bs @ [b]) b = card (set bs)"
      by (rule rank_append_new [OF False])
    have start: "length s2 div B = card (set bs)" using len B by simp
    from False have step: "compress_block B b st =
        (blocks(b \<mapsto> card (set bs)), s1 @ [card (set bs)], s2 @ b)"
      by (simp add: compress_block_def st bl start Let_def)
    have c: "card (set (bs @ [b])) = Suc (card (set bs))" using False by simp
    have 1: "s1 @ [card (set bs)] = map (rank (bs @ [b])) (bs @ [b])"
      using s1 r rb by simp
    have 2: "\<forall>x. (blocks(b \<mapsto> card (set bs))) x =
        (if x \<in> set (bs @ [b]) then Some (rank (bs @ [b]) x) else None)"
      using bl r rb False by auto
    have 3: "\<forall>x \<in> set (bs @ [b]). rank (bs @ [b]) x * B + length x \<le> length (s2 @ b) \<and>
           take (length x) (drop (rank (bs @ [b]) x * B) (s2 @ b)) = x"
    proof
      fix x assume "x \<in> set (bs @ [b])"
      then consider "x \<in> set bs" | "x = b" by auto
      then show "rank (bs @ [b]) x * B + length x \<le> length (s2 @ b) \<and>
           take (length x) (drop (rank (bs @ [b]) x * B) (s2 @ b)) = x"
      proof cases
        case 1
        from pos [OF 1] r [OF 1] show ?thesis by simp
      next
        case 2
        then show ?thesis using rb len by simp
      qed
    qed
    have 4: "(\<forall>x \<in> set (bs @ [b]). length x = B) \<longrightarrow>
        length (s2 @ b) = card (set (bs @ [b])) * B"
      using len c by simp
    have 5: "set (s2 @ b) \<subseteq> \<Union> (set ` set (bs @ [b]))"
      using sub by auto
    show ?thesis
      unfolding step compress_inv_def prod.case by (intro conjI 1 2 3 4 5)
  qed
qed

lemma compress_blocks_inv:
  assumes "0 < B" and "\<forall>b \<in> set (butlast bs). length b = B"
  shows "compress_inv B bs (fold (compress_block B) bs (Map.empty, [], []))"
  using assms(2)
proof (induction bs rule: rev_induct)
  case Nil
  then show ?case by (simp add: compress_inv_def)
next
  case (snoc b bs)
  then have full: "\<forall>x \<in> set bs. length x = B" by simp
  then have "\<forall>x \<in> set (butlast bs). length x = B" by (auto dest: in_set_butlastD)
  then have "compress_inv B bs (fold (compress_block B) bs (Map.empty, [], []))"
    by (rule snoc.IH)
  from compress_inv_step [OF assms(1) this full] show ?case by simp
qed


section \<open>The blocks of a table\<close>

lemma block_index_bound:
  fixes B k n :: nat
  assumes "0 < B" and "k < (n + B - 1) div B"
  shows "k * B + B \<le> n + B - 1" and "k * B < n"
proof -
  from assms(2) have "Suc k \<le> (n + B - 1) div B" by simp
  then have "Suc k * B \<le> (n + B - 1) div B * B" by (rule mult_le_mono1)
  also have "\<dots> \<le> n + B - 1" by (rule div_times_less_eq_dividend)
  finally show *: "k * B + B \<le> n + B - 1" by (simp add: add.commute)
  with assms(1) show "k * B < n" by arith
qed

lemma nblocks_cover:
  fixes B n :: nat
  assumes "0 < B"
  shows "n \<le> (n + B - 1) div B * B"
proof -
  have "(n + B - 1) div B * B + (n + B - 1) mod B = n + B - 1" by simp
  moreover have "(n + B - 1) mod B < B" using assms by simp
  ultimately show ?thesis by arith
qed

lemma div_lt_nblocks:
  fixes B c n :: nat
  assumes "0 < B" and "c < n"
  shows "c div B < (n + B - 1) div B"
proof -
  from assms(2) nblocks_cover [OF assms(1), of n] have "c < (n + B - 1) div B * B" by simp
  with assms(1) show ?thesis by (simp add: div_less_iff_less_mult)
qed

lemma length_blocks_of: "length (blocks_of table B) = (length table + B - 1) div B"
  by (simp add: blocks_of_def range_step_def)

lemma blocks_of_nth:
  assumes "k < length (blocks_of table B)"
  shows "blocks_of table B ! k = take B (drop (k * B) table)"
  using assms by (simp add: blocks_of_def range_step_def slice_def)

lemma blocks_of_butlast_full:
  assumes "0 < B"
  shows "\<forall>b \<in> set (butlast (blocks_of table B)). length b = B"
proof
  fix b assume "b \<in> set (butlast (blocks_of table B))"
  then obtain k where k: "k < length (butlast (blocks_of table B))"
    and b: "b = butlast (blocks_of table B) ! k"
    by (auto simp: in_set_conv_nth)
  from k have k1: "Suc k < length (blocks_of table B)" by simp
  then have "Suc k < (length table + B - 1) div B" by (simp add: length_blocks_of)
  from block_index_bound(2) [OF assms this] have le: "k * B + B \<le> length table" by simp
  from k b have "b = blocks_of table B ! k" by (simp add: nth_butlast)
  also from k1 have "\<dots> = take B (drop (k * B) table)" by (simp add: blocks_of_nth)
  finally show "length b = B" using le by simp
qed

lemma blocks_of_full:
  assumes "0 < B" and "B dvd length table"
  shows "\<forall>b \<in> set (blocks_of table B). length b = B"
proof
  fix b assume "b \<in> set (blocks_of table B)"
  then obtain k where k: "k < length (blocks_of table B)" and b: "b = blocks_of table B ! k"
    by (auto simp: in_set_conv_nth)
  from k have "k < (length table + B - 1) div B" by (simp add: length_blocks_of)
  from block_index_bound(2) [OF assms(1) this] have lt: "k * B < length table" .
  from assms(2) obtain q where q: "length table = q * B" by (auto simp: dvd_def mult.commute)
  with lt assms(1) have "k < q" by simp
  then have "Suc k \<le> q" by simp
  then have "Suc k * B \<le> q * B" by (rule mult_le_mono1)
  with q have le: "k * B + B \<le> length table" by (simp add: add.commute)
  from k b have "b = take B (drop (k * B) table)" by (simp add: blocks_of_nth)
  then show "length b = B" using le by simp
qed

lemma length_blocks_of_dvd:
  assumes "0 < B" and "B dvd length table"
  shows "length (blocks_of table B) = length table div B"
proof -
  from assms(2) obtain q where q: "length table = q * B" by (auto simp: dvd_def mult.commute)
  have "(q * B + B - 1) div B = q"
    by (rule div_nat_eqI) (use assms(1) in \<open>simp_all add: mult.commute\<close>)
  with q assms(1) show ?thesis by (simp add: length_blocks_of)
qed

lemma compress_table_fold:
  assumes "0 < B"
  shows "compress_table table B =
     (case fold (compress_block B) (blocks_of table B) (Map.empty, [], []) of
        (blocks, s1, s2) \<Rightarrow> Inr (s1, s2))"
proof -
  have "compress_step table B = compress_block B \<circ> (\<lambda>i. slice table i (i + B))"
    by (intro ext) (simp add: compress_step_def)
  then show ?thesis
    using assms by (simp add: compress_table_def blocks_of_def fold_map)
qed

lemma compress_table_inv:
  assumes "0 < B" and "compress_table table B = Inr (s1, s2)"
  shows "\<exists>blocks. compress_inv B (blocks_of table B) (blocks, s1, s2)"
proof -
  obtain blocks t1 t2 where f: "fold (compress_block B) (blocks_of table B) (Map.empty, [], []) = (blocks, t1, t2)"
    by (metis prod_cases3)
  with assms have "t1 = s1" "t2 = s2" by (simp_all add: compress_table_fold)
  with f compress_blocks_inv [OF assms(1) blocks_of_butlast_full [OF assms(1)], of table]
  show ?thesis by auto
qed

lemma compress_table_total:
  assumes "0 < B"
  shows "\<exists>s1 s2. compress_table table B = Inr (s1, s2)"
  using assms by (simp add: compress_table_fold split: prod.splits)

lemma compress_table_stage1:
  assumes "0 < B" and "compress_table table B = Inr (s1, s2)"
  shows "s1 = map (rank (blocks_of table B)) (blocks_of table B)"
  using compress_table_inv [OF assms] by (auto simp: compress_inv_def)

lemma compress_table_block:
  assumes "0 < B" and "compress_table table B = Inr (s1, s2)"
    and "k < length (blocks_of table B)"
  shows "s1 ! k * B + length (blocks_of table B ! k) \<le> length s2"
    and "take (length (blocks_of table B ! k)) (drop (s1 ! k * B) s2) = blocks_of table B ! k"
proof -
  from compress_table_inv [OF assms(1,2)] obtain blocks
    where inv: "compress_inv B (blocks_of table B) (blocks, s1, s2)" ..
  let ?b = "blocks_of table B ! k"
  from assms(3) have mem: "?b \<in> set (blocks_of table B)" by simp
  from inv assms(3) have s1: "s1 ! k = rank (blocks_of table B) ?b"
    by (simp add: compress_inv_def)
  from inv mem have "rank (blocks_of table B) ?b * B + length ?b \<le> length s2 \<and>
      take (length ?b) (drop (rank (blocks_of table B) ?b * B) s2) = ?b"
    unfolding compress_inv_def prod.case by blast
  with s1 show "s1 ! k * B + length ?b \<le> length s2"
    and "take (length ?b) (drop (s1 ! k * B) s2) = ?b" by simp_all
qed

lemma compress_table_lookup:
  assumes B: "0 < B" and ct: "compress_table table B = Inr (s1, s2)"
    and c: "c < length table"
  shows "s1 ! (c div B) * B + c mod B < length s2"
    and "s2 ! (s1 ! (c div B) * B + c mod B) = table ! c"
proof -
  let ?k = "c div B"
  let ?b = "blocks_of table B ! ?k"
  from div_lt_nblocks [OF B c] have k: "?k < length (blocks_of table B)"
    by (simp add: length_blocks_of)
  then have b: "?b = take B (drop (?k * B) table)" by (rule blocks_of_nth)
  have pos: "?k * B + c mod B = c" by simp
  have r: "c mod B < length ?b" unfolding b using B c pos by (simp, arith)
  note blk = compress_table_block [OF B ct k]
  from blk(1) r show "s1 ! ?k * B + c mod B < length s2" by simp
  have "s2 ! (s1 ! ?k * B + c mod B) = take (length ?b) (drop (s1 ! ?k * B) s2) ! (c mod B)"
    using r blk(1) by simp
  also have "\<dots> = ?b ! (c mod B)" by (simp only: blk(2))
  also have "\<dots> = table ! c" unfolding b using r B c pos by (simp add: b)
  finally show "s2 ! (s1 ! ?k * B + c mod B) = table ! c" .
qed


lemma set_blocks_of: "\<Union> (set ` set (blocks_of table B)) \<subseteq> set table"
  by (auto simp: blocks_of_def slice_def dest!: in_set_takeD in_set_dropD)

lemma compress_table_values:
  assumes "0 < B" and "compress_table table B = Inr (s1, s2)"
  shows "set s2 \<subseteq> set table"
proof -
  from compress_table_inv [OF assms] have "set s2 \<subseteq> \<Union> (set ` set (blocks_of table B))"
    by (auto simp: compress_inv_def)
  with set_blocks_of [of table B] show ?thesis by blast
qed

lemma compress_table_length_stage1:
  assumes "0 < B" and "compress_table table B = Inr (s1, s2)"
  shows "length s1 = length (blocks_of table B)"
  using compress_table_stage1 [OF assms] by simp

lemma compress_table_stage1_le:
  assumes "0 < B" and "compress_table table B = Inr (s1, s2)" and "i < length s1"
  shows "s1 ! i \<le> i"
proof -
  from assms have i: "i < length (blocks_of table B)"
    by (simp add: compress_table_length_stage1)
  with compress_table_stage1 [OF assms(1,2)]
  have "s1 ! i = rank (blocks_of table B) (blocks_of table B ! i)" by simp
  with rank_nth_le [OF i] show ?thesis by simp
qed

lemma compress_table_dvd:
  assumes "0 < B" and "B dvd length table" and "compress_table table B = Inr (s1, s2)"
  shows "length s2 = card (set (blocks_of table B)) * B"
  using compress_table_inv [OF assms(1,3)] blocks_of_full [OF assms(1,2)]
  by (auto simp: compress_inv_def)

text \<open>
  Claim C10. For a positive block size that divides the length of the table,
  \<open>compress_table\<close> returns a \<open>stage1\<close> with one entry per block and a \<open>stage2\<close>
  whose length is a multiple of the block size. Entry \<open>i\<close> of \<open>stage1\<close> is the number of
  distinct blocks before the first occurrence of block \<open>i\<close>, which is the block index of
  \<open>stage2\<close> where that first occurrence was appended: block \<open>i\<close> stands there in
  \<open>stage2\<close>, the index is below the number of blocks of \<open>stage2\<close>, and it is at most \<open>i\<close>.
\<close>

theorem compress_table_structure:
  assumes "0 < B" and "B dvd length table"
  shows "\<exists>s1 s2. compress_table table B = Inr (s1, s2) \<and>
           length s1 = length table div B \<and> B dvd length s2 \<and>
           (\<forall>i < length s1.
              s1 ! i = rank (blocks_of table B) (blocks_of table B ! i) \<and>
              take B (drop (s1 ! i * B) s2) = blocks_of table B ! i \<and>
              s1 ! i < length s2 div B \<and> s1 ! i \<le> i)"
proof -
  from compress_table_total [OF assms(1)] obtain s1 s2
    where ct: "compress_table table B = Inr (s1, s2)" by blast
  let ?bs = "blocks_of table B"
  have len1: "length s1 = length ?bs" by (rule compress_table_length_stage1 [OF assms(1) ct])
  have len2: "length s2 = card (set ?bs) * B" by (rule compress_table_dvd [OF assms ct])
  have full: "\<forall>b \<in> set ?bs. length b = B" by (rule blocks_of_full [OF assms])
  have "length s1 = length table div B"
    using len1 length_blocks_of_dvd [OF assms] by simp
  moreover have "B dvd length s2" using len2 by simp
  moreover have "\<forall>i < length s1.
              s1 ! i = rank ?bs (?bs ! i) \<and>
              take B (drop (s1 ! i * B) s2) = ?bs ! i \<and>
              s1 ! i < length s2 div B \<and> s1 ! i \<le> i"
  proof (intro allI impI)
    fix i assume i: "i < length s1"
    with len1 have i': "i < length ?bs" by simp
    then have mem: "?bs ! i \<in> set ?bs" by simp
    from compress_table_stage1 [OF assms(1) ct] i'
    have a: "s1 ! i = rank ?bs (?bs ! i)" by simp
    from compress_table_block(2) [OF assms(1) ct i'] full mem
    have b: "take B (drop (s1 ! i * B) s2) = ?bs ! i" by simp
    from rank_less [OF mem] a len2 assms(1) have c: "s1 ! i < length s2 div B" by simp
    from compress_table_stage1_le [OF assms(1) ct i] have d: "s1 ! i \<le> i" .
    from a b c d show "s1 ! i = rank ?bs (?bs ! i) \<and>
              take B (drop (s1 ! i * B) s2) = ?bs ! i \<and>
              s1 ! i < length s2 div B \<and> s1 ! i \<le> i" by blast
  qed
  ultimately show ?thesis using ct by blast
qed

theorem compress_table_structure_witness:
  "0 < (2::nat) \<and> 2 dvd length [1, 2, 1, 2, 3, 4 :: nat] \<and>
   (\<exists>s1 s2. compress_table [1, 2, 1, 2, 3, 4 :: nat] 2 = Inr (s1, s2) \<and>
      length s1 = length [1, 2, 1, 2, 3, 4 :: nat] div 2 \<and> 2 dvd length s2 \<and>
      (\<forall>i < length s1.
         s1 ! i = rank (blocks_of [1, 2, 1, 2, 3, 4 :: nat] 2) (blocks_of [1, 2, 1, 2, 3, 4 :: nat] 2 ! i) \<and>
         take 2 (drop (s1 ! i * 2) s2) = blocks_of [1, 2, 1, 2, 3, 4 :: nat] 2 ! i \<and>
         s1 ! i < length s2 div 2 \<and> s1 ! i \<le> i))"
proof -
  have a: "0 < (2::nat)" by simp
  have b: "2 dvd length [1, 2, 1, 2, 3, 4 :: nat]" by simp
  have "\<exists>s1 s2. compress_table [1, 2, 1, 2, 3, 4 :: nat] 2 = Inr (s1, s2) \<and>
      length s1 = length [1, 2, 1, 2, 3, 4 :: nat] div 2 \<and> 2 dvd length s2 \<and>
      (\<forall>i < length s1.
         s1 ! i = rank (blocks_of [1, 2, 1, 2, 3, 4 :: nat] 2) (blocks_of [1, 2, 1, 2, 3, 4 :: nat] 2 ! i) \<and>
         take 2 (drop (s1 ! i * 2) s2) = blocks_of [1, 2, 1, 2, 3, 4 :: nat] 2 ! i \<and>
         s1 ! i < length s2 div 2 \<and> s1 ! i \<le> i)"
    by (rule compress_table_structure [OF a b])
  with a b show ?thesis by (intro conjI)
qed
section \<open>Record interning\<close>

lemma combine_inv_step:
  assumes inv: "combine_inv rows st"
  shows "combine_inv (rows @ [t]) (combine_step t st)"
proof -
  obtain records index where st: "st = (records, index)" by (cases st) auto
  from inv st have ix: "index = map (rank rows) rows"
    and ids: "map snd records = [0..<length records]"
    and dist: "distinct (map fst records)"
    and len: "length records = card (set rows)"
    and mp: "\<And>x. map_of records x = (if x \<in> set rows then Some (rank rows x) else None)"
    by (auto simp: combine_inv_def)
  have r: "\<And>x. x \<in> set rows \<Longrightarrow> rank (rows @ [t]) x = rank rows x"
    by (simp add: rank_append_mem)
  show ?thesis
  proof (cases "t \<in> set rows")
    case True
    have set_eq: "set (rows @ [t]) = set rows" using True by auto
    from True have step: "combine_step t st = (records, index @ [rank rows t])"
      by (simp add: combine_step_def st mp)
    have 1: "index @ [rank rows t] = map (rank (rows @ [t])) (rows @ [t])"
      using ix r True by simp
    have 4: "length records = card (set (rows @ [t]))"
      unfolding set_eq by (rule len)
    have 5: "\<forall>x. map_of records x =
        (if x \<in> set (rows @ [t]) then Some (rank (rows @ [t]) x) else None)"
      unfolding set_eq using mp r by simp
    show ?thesis
      unfolding step combine_inv_def prod.case by (intro conjI 1 ids dist 4 5)
  next
    case False
    have rt: "rank (rows @ [t]) t = card (set rows)"
      by (rule rank_append_new [OF False])
    from False have none: "map_of records t = None" by (simp add: mp)
    then have step: "combine_step t st =
        (records @ [(t, length records)], index @ [length records])"
      by (simp add: combine_step_def st)
    have notin: "t \<notin> set (map fst records)"
      using none by (simp add: map_of_eq_None_iff)
    have 1: "index @ [length records] = map (rank (rows @ [t])) (rows @ [t])"
      using ix r rt len by simp
    have 2: "map snd (records @ [(t, length records)]) =
        [0..<length (records @ [(t, length records)])]"
      using ids by simp
    have 3: "distinct (map fst (records @ [(t, length records)]))"
      using dist notin by simp
    have 4: "length (records @ [(t, length records)]) = card (set (rows @ [t]))"
      using len False by simp
    have 5: "\<forall>x. map_of (records @ [(t, length records)]) x =
        (if x \<in> set (rows @ [t]) then Some (rank (rows @ [t]) x) else None)"
    proof
      fix x
      show "map_of (records @ [(t, length records)]) x =
        (if x \<in> set (rows @ [t]) then Some (rank (rows @ [t]) x) else None)"
      proof (cases "x \<in> set rows")
        case True
        then show ?thesis by (simp add: mp r map_add_def)
      next
        case False
        then show ?thesis using rt len by (simp add: mp map_add_def)
      qed
    qed
    show ?thesis
      unfolding step combine_inv_def prod.case by (intro conjI 1 2 3 4 5)
  qed
qed

lemma combine_fold_inv: "combine_inv rows (fold combine_step rows ([], []))"
proof (induction rows rule: rev_induct)
  case Nil
  show ?case by (simp add: combine_inv_def)
next
  case (snoc t rows)
  from combine_inv_step [OF snoc.IH, of t] show ?case by simp
qed

lemma combine_tables_inv:
  assumes "combine_tables tables = (index, records)"
  shows "combine_inv (zip_star tables) (records, index)"
proof -
  obtain r i where f: "fold combine_step (zip_star tables) ([], []) = (r, i)"
    by (cases "fold combine_step (zip_star tables) ([], [])") auto
  with assms have "r = records" "i = index" by (simp_all add: combine_tables_def)
  with f combine_fold_inv [of "zip_star tables"] show ?thesis by simp
qed

lemma combine_tables_index:
  assumes "combine_tables tables = (index, records)"
  shows "index = map (rank (zip_star tables)) (zip_star tables)"
  using combine_tables_inv [OF assms] by (simp add: combine_inv_def)

lemma combine_tables_ids:
  assumes "combine_tables tables = (index, records)" and "i < length records"
  shows "snd (records ! i) = i"
proof -
  from combine_tables_inv [OF assms(1)] have "map snd records = [0..<length records]"
    by (simp add: combine_inv_def)
  then have "map snd records ! i = [0..<length records] ! i" by simp
  with assms(2) show ?thesis by simp
qed

lemma combine_tables_record:
  assumes ct: "combine_tables tables = (index, records)" and c: "c < length (zip_star tables)"
  shows "index ! c < length records" and "records ! (index ! c) = (zip_star tables ! c, index ! c)"
    and "map_of records (zip_star tables ! c) = Some (index ! c)"
proof -
  let ?rows = "zip_star tables"
  note inv = combine_tables_inv [OF ct]
  from c have mem: "?rows ! c \<in> set ?rows" by simp
  from combine_tables_index [OF ct] c have ix: "index ! c = rank ?rows (?rows ! c)" by simp
  from inv have len: "length records = card (set ?rows)" by (simp add: combine_inv_def)
  from rank_less [OF mem] ix len show lt: "index ! c < length records" by simp
  from inv mem ix show mp: "map_of records (?rows ! c) = Some (index ! c)"
    by (simp add: combine_inv_def)
  then have "(?rows ! c, index ! c) \<in> set records" by (rule map_of_SomeD)
  then obtain j where j: "j < length records" and rj: "records ! j = (?rows ! c, index ! c)"
    by (auto simp: in_set_conv_nth)
  from combine_tables_ids [OF ct j] rj have "j = index ! c" by simp
  with rj show "records ! (index ! c) = (?rows ! c, index ! c)" by simp
qed

lemma write_records_sorted:
  assumes "map snd records = [0..<length records]"
  shows "write_records records = records"
proof -
  have "sorted (map snd records)" unfolding assms by simp
  then have s: "sort_key snd records = records" by (rule sort_key_id_if_sorted)
  have "map (\<lambda>(i, record). (fst record, i)) (enumerate 0 records) = records"
  proof (rule nth_equalityI)
    show "length (map (\<lambda>(i, record). (fst record, i)) (enumerate 0 records)) = length records"
      by simp
  next
    fix i assume "i < length (map (\<lambda>(i, record). (fst record, i)) (enumerate 0 records))"
    then have i: "i < length records" by simp
    from assms have "map snd records ! i = [0..<length records] ! i" by simp
    with i have "snd (records ! i) = i" by simp
    with i show "map (\<lambda>(i, record). (fst record, i)) (enumerate 0 records) ! i = records ! i"
      by (simp add: nth_enumerate_eq prod_eq_iff)
  qed
  with s show ?thesis by (simp add: write_records_def)
qed

lemma combine_tables_write_records:
  assumes "combine_tables tables = (index, records)"
  shows "write_records records = records"
  using combine_tables_inv [OF assms] by (intro write_records_sorted) (simp add: combine_inv_def)

lemma zip_star_equal_length:
  assumes "tables \<noteq> []" and "\<forall>t \<in> set tables. length t = n"
  shows "length (zip_star tables) = n"
    and "\<forall>c < n. zip_star tables ! c = map (\<lambda>t. t ! c) tables"
proof -
  from assms have "set (map length tables) = {n}" by (cases tables) auto
  then have "Min (set (map length tables)) = n" by simp
  with assms(1) show "length (zip_star tables) = n"
    and "\<forall>c < n. zip_star tables ! c = map (\<lambda>t. t ! c) tables"
    by (simp_all add: zip_star_def)
qed


lemma write_records_by_id:
  assumes d: "distinct (map snd recs)" and s: "set (map snd recs) = {..<length recs}"
  shows "length (write_records recs) = length recs \<and>
     (\<forall>i < length recs. \<exists>t. write_records recs ! i = (t, i) \<and> (t, i) \<in> set recs)"
proof -
  let ?ss = "sort_key snd recs"
  have len: "length ?ss = length recs" by simp
  have st: "set ?ss = set recs" by simp
  from d have "distinct recs" and inj: "inj_on snd (set recs)" by (simp_all add: distinct_map)
  then have dss: "distinct (map snd ?ss)" by (simp add: distinct_map)
  have srt: "sorted (map snd ?ss)" by (rule sorted_sort_key)
  have "set (map snd ?ss) = set [0..<length recs]" using s by (simp add: lessThan_atLeast0)
  with srt dss have ids: "map snd ?ss = [0..<length recs]"
    by (intro sorted_distinct_set_unique) simp_all
  have 1: "length (write_records recs) = length recs" by (simp add: write_records_def)
  have 2: "\<forall>i < length recs. \<exists>t. write_records recs ! i = (t, i) \<and> (t, i) \<in> set recs"
  proof (intro allI impI)
    fix i assume i: "i < length recs"
    from ids have "map snd ?ss ! i = [0..<length recs] ! i" by simp
    with i len have si: "snd (?ss ! i) = i" by simp
    from i len have "?ss ! i \<in> set ?ss" by (intro nth_mem) simp
    with st have mem: "?ss ! i \<in> set recs" by simp
    from i len have "write_records recs ! i = (fst (?ss ! i), i)"
      by (simp add: write_records_def nth_enumerate_eq)
    moreover from si mem have "(fst (?ss ! i), i) \<in> set recs"
      by (metis prod.collapse)
    ultimately show "\<exists>t. write_records recs ! i = (t, i) \<and> (t, i) \<in> set recs" by blast
  qed
  from 1 2 show ?thesis ..
qed

lemma combine_tables_keys:
  assumes "combine_tables tables = (index, records)"
  shows "set (map fst records) = set (zip_star tables)"
    and "map snd records = [0..<length records]"
    and "\<forall>t \<in> set (zip_star tables). map_of records t = Some (rank (zip_star tables) t)"
proof -
  note inv = combine_tables_inv [OF assms]
  from inv have mp: "\<And>t. map_of records t =
      (if t \<in> set (zip_star tables) then Some (rank (zip_star tables) t) else None)"
    by (simp add: combine_inv_def)
  have "dom (map_of records) = set (zip_star tables)"
    by (auto simp: dom_def mp)
  then show "set (map fst records) = set (zip_star tables)"
    by (simp add: dom_map_of_conv_image_fst)
  from inv show "map snd records = [0..<length records]" by (simp add: combine_inv_def)
  from mp show "\<forall>t \<in> set (zip_star tables). map_of records t = Some (rank (zip_star tables) t)"
    by simp
qed

text \<open>
  Claim C5. \<open>combine_tables\<close> gives the tuple at each position the number of distinct
  tuples before the tuple's first occurrence (ids 0, 1, 2, ... in first-occurrence order),
  both in the index and in the catalog: the catalog maps every tuple of the tables to
  that number, its keys are exactly the tuples of the tables, each once, and its ids are
  0, 1, 2, ... in insertion order. Two positions have the same index exactly when their
  tuples are equal, and the catalog entry of the index of a position is the tuple at that
  position. \<open>write_records\<close> sorts by id: for any catalog whose ids are the numbers
  below its length, in whatever order, row \<open>i\<close> emitted is the entry with id \<open>i\<close>; for
  the catalog of \<open>combine_tables\<close>, the row of the index of a position is the tuple at
  that position. For non-empty equal-length tables the tuple at a position holds each
  table's value there. (The model is a function, so equal inputs give equal outputs.)
\<close>

theorem combine_tables_interning:
  assumes "combine_tables tables = (index, records)"
  shows "length index = length (zip_star tables) \<and>
     (\<forall>c < length (zip_star tables). index ! c = rank (zip_star tables) (zip_star tables ! c)) \<and>
     (\<forall>c1 < length (zip_star tables). \<forall>c2 < length (zip_star tables).
        index ! c1 = index ! c2 \<longleftrightarrow> zip_star tables ! c1 = zip_star tables ! c2) \<and>
     distinct (map fst records) \<and> length records = card (set (zip_star tables)) \<and>
     set (map fst records) = set (zip_star tables) \<and>
     map snd records = [0..<length records] \<and>
     (\<forall>t \<in> set (zip_star tables). map_of records t = Some (rank (zip_star tables) t)) \<and>
     (\<forall>c < length (zip_star tables).
        map_of records (zip_star tables ! c) = Some (index ! c) \<and>
        index ! c < length records \<and>
        records ! (index ! c) = (zip_star tables ! c, index ! c) \<and>
        write_records records ! (index ! c) = (zip_star tables ! c, index ! c)) \<and>
     length (write_records records) = length records \<and>
     (\<forall>i < length records. \<exists>t. write_records records ! i = (t, i) \<and> map_of records t = Some i) \<and>
     (\<forall>recs :: ('a list \<times> nat) list.
        distinct (map snd recs) \<and> set (map snd recs) = {..<length recs} \<longrightarrow>
        length (write_records recs) = length recs \<and>
        (\<forall>i < length recs. \<exists>t. write_records recs ! i = (t, i) \<and> (t, i) \<in> set recs)) \<and>
     (tables \<noteq> [] \<and> (\<forall>t \<in> set tables. length t = n) \<longrightarrow>
        length index = n \<and> (\<forall>c < n. zip_star tables ! c = map (\<lambda>t. t ! c) tables))"
proof -
  let ?rows = "zip_star tables"
  note inv = combine_tables_inv [OF assms]
  note ix = combine_tables_index [OF assms]
  have 1: "length index = length ?rows" using ix by simp
  have 2: "\<forall>c < length ?rows. index ! c = rank ?rows (?rows ! c)" using ix by simp
  have 3: "\<forall>c1 < length ?rows. \<forall>c2 < length ?rows.
        index ! c1 = index ! c2 \<longleftrightarrow> ?rows ! c1 = ?rows ! c2"
  proof (intro allI impI)
    fix c1 c2 assume c: "c1 < length ?rows" "c2 < length ?rows"
    then have m: "?rows ! c1 \<in> set ?rows" "?rows ! c2 \<in> set ?rows" by simp_all
    from c 2 have e: "index ! c1 = rank ?rows (?rows ! c1)" "index ! c2 = rank ?rows (?rows ! c2)"
      by simp_all
    show "index ! c1 = index ! c2 \<longleftrightarrow> ?rows ! c1 = ?rows ! c2"
    proof
      assume "index ! c1 = index ! c2"
      with e have "rank ?rows (?rows ! c1) = rank ?rows (?rows ! c2)" by simp
      with m show "?rows ! c1 = ?rows ! c2" by (rule rank_inj)
    next
      assume "?rows ! c1 = ?rows ! c2"
      with e show "index ! c1 = index ! c2" by simp
    qed
  qed
  have 4: "distinct (map fst records)" using inv by (simp add: combine_inv_def)
  have 5: "length records = card (set ?rows)" using inv by (simp add: combine_inv_def)
  note k = combine_tables_keys [OF assms]
  note wr = combine_tables_write_records [OF assms]
  have 6: "\<forall>c < length ?rows.
        map_of records (?rows ! c) = Some (index ! c) \<and>
        index ! c < length records \<and>
        records ! (index ! c) = (?rows ! c, index ! c) \<and>
        write_records records ! (index ! c) = (?rows ! c, index ! c)"
  proof (intro allI impI)
    fix c assume c: "c < length ?rows"
    note r = combine_tables_record [OF assms c]
    from r show "map_of records (?rows ! c) = Some (index ! c) \<and>
        index ! c < length records \<and>
        records ! (index ! c) = (?rows ! c, index ! c) \<and>
        write_records records ! (index ! c) = (?rows ! c, index ! c)"
      unfolding wr by (intro conjI)
  qed
  have 7: "length (write_records records) = length records" by (simp add: wr)
  have 8: "\<forall>i < length records. \<exists>t. write_records records ! i = (t, i) \<and> map_of records t = Some i"
  proof (intro allI impI)
    fix i assume i: "i < length records"
    from combine_tables_ids [OF assms i] have r: "records ! i = (fst (records ! i), i)"
      by (simp add: prod_eq_iff)
    from i have "records ! i \<in> set records" by simp
    with r have "(fst (records ! i), i) \<in> set records" by simp
    with 4 have "map_of records (fst (records ! i)) = Some i" by (rule map_of_is_SomeI)
    with r show "\<exists>t. write_records records ! i = (t, i) \<and> map_of records t = Some i"
      unfolding wr by blast
  qed
  have 9: "\<forall>recs :: ('a list \<times> nat) list.
        distinct (map snd recs) \<and> set (map snd recs) = {..<length recs} \<longrightarrow>
        length (write_records recs) = length recs \<and>
        (\<forall>i < length recs. \<exists>t. write_records recs ! i = (t, i) \<and> (t, i) \<in> set recs)"
    using write_records_by_id by blast
  have 10: "tables \<noteq> [] \<and> (\<forall>t \<in> set tables. length t = n) \<longrightarrow>
        length index = n \<and> (\<forall>c < n. ?rows ! c = map (\<lambda>t. t ! c) tables)"
    using zip_star_equal_length [of tables n] 1 by simp
  show ?thesis by (intro conjI 1 2 3 4 5 k 6 7 8 9 10)
qed

lemma example_write_records:
  "write_records ([([2, 6], 1), ([1, 5], 0)] :: (int list \<times> nat) list) = ([([1, 5], 0), ([2, 6], 1)] :: (int list \<times> nat) list)"
  by code_simp

theorem combine_tables_interning_witness:
  "combine_tables ([[1, 2, 1], [5, 6, 5]] :: int list list) = (([0, 1, 0] :: nat list), ([([1, 5], 0), ([2, 6], 1)] :: (int list \<times> nat) list)) \<and>
   length ([0, 1, 0] :: nat list) = length (zip_star ([[1, 2, 1], [5, 6, 5]] :: int list list)) \<and>
   ([0, 1, 0] :: nat list) ! 2 = rank (zip_star ([[1, 2, 1], [5, 6, 5]] :: int list list)) (zip_star ([[1, 2, 1], [5, 6, 5]] :: int list list) ! 2) \<and>
   (([0, 1, 0] :: nat list) ! 0 = ([0, 1, 0] :: nat list) ! 2 \<longleftrightarrow> zip_star ([[1, 2, 1], [5, 6, 5]] :: int list list) ! 0 = zip_star ([[1, 2, 1], [5, 6, 5]] :: int list list) ! 2) \<and>
   (([0, 1, 0] :: nat list) ! 0 = ([0, 1, 0] :: nat list) ! 1 \<longleftrightarrow> zip_star ([[1, 2, 1], [5, 6, 5]] :: int list list) ! 0 = zip_star ([[1, 2, 1], [5, 6, 5]] :: int list list) ! 1) \<and>
   distinct (map fst ([([1, 5], 0), ([2, 6], 1)] :: (int list \<times> nat) list)) \<and> length ([([1, 5], 0), ([2, 6], 1)] :: (int list \<times> nat) list) = card (set (zip_star ([[1, 2, 1], [5, 6, 5]] :: int list list))) \<and>
   set (map fst ([([1, 5], 0), ([2, 6], 1)] :: (int list \<times> nat) list)) = set (zip_star ([[1, 2, 1], [5, 6, 5]] :: int list list)) \<and>
   map snd ([([1, 5], 0), ([2, 6], 1)] :: (int list \<times> nat) list) = [0..<length ([([1, 5], 0), ([2, 6], 1)] :: (int list \<times> nat) list)] \<and>
   map_of ([([1, 5], 0), ([2, 6], 1)] :: (int list \<times> nat) list) (zip_star ([[1, 2, 1], [5, 6, 5]] :: int list list) ! 1) = Some (([0, 1, 0] :: nat list) ! 1) \<and>
   ([0, 1, 0] :: nat list) ! 1 < length ([([1, 5], 0), ([2, 6], 1)] :: (int list \<times> nat) list) \<and>
   ([([1, 5], 0), ([2, 6], 1)] :: (int list \<times> nat) list) ! (([0, 1, 0] :: nat list) ! 1) = (zip_star ([[1, 2, 1], [5, 6, 5]] :: int list list) ! 1, ([0, 1, 0] :: nat list) ! 1) \<and>
   write_records ([([1, 5], 0), ([2, 6], 1)] :: (int list \<times> nat) list) ! (([0, 1, 0] :: nat list) ! 1) = (zip_star ([[1, 2, 1], [5, 6, 5]] :: int list list) ! 1, ([0, 1, 0] :: nat list) ! 1) \<and>
   length (write_records ([([1, 5], 0), ([2, 6], 1)] :: (int list \<times> nat) list)) = length ([([1, 5], 0), ([2, 6], 1)] :: (int list \<times> nat) list) \<and>
   (\<exists>t. write_records ([([1, 5], 0), ([2, 6], 1)] :: (int list \<times> nat) list) ! 1 = (t, 1) \<and> map_of ([([1, 5], 0), ([2, 6], 1)] :: (int list \<times> nat) list) t = Some 1) \<and>
   length (write_records ([([2, 6], 1), ([1, 5], 0)] :: (int list \<times> nat) list)) = length ([([2, 6], 1), ([1, 5], 0)] :: (int list \<times> nat) list) \<and>
   (\<exists>t. write_records ([([2, 6], 1), ([1, 5], 0)] :: (int list \<times> nat) list) ! 0 = (t, 0) \<and> (t, 0) \<in> set ([([2, 6], 1), ([1, 5], 0)] :: (int list \<times> nat) list)) \<and>
   write_records ([([2, 6], 1), ([1, 5], 0)] :: (int list \<times> nat) list) = ([([1, 5], 0), ([2, 6], 1)] :: (int list \<times> nat) list) \<and>
   length ([0, 1, 0] :: nat list) = 3 \<and> zip_star ([[1, 2, 1], [5, 6, 5]] :: int list list) ! 2 = map (\<lambda>t. t ! 2) ([[1, 2, 1], [5, 6, 5]] :: int list list)"
proof -
  have e: "combine_tables ([[1, 2, 1], [5, 6, 5]] :: int list list) = (([0, 1, 0] :: nat list), ([([1, 5], 0), ([2, 6], 1)] :: (int list \<times> nat) list))"
    by code_simp
  note t = combine_tables_interning [OF e, of 3]
  have l: "length (zip_star ([[1, 2, 1], [5, 6, 5]] :: int list list)) = 3" by (simp add: zip_star_def)
  have l0: "0 < length (zip_star ([[1, 2, 1], [5, 6, 5]] :: int list list))" and l1: "1 < length (zip_star ([[1, 2, 1], [5, 6, 5]] :: int list list))"
    and l2: "2 < length (zip_star ([[1, 2, 1], [5, 6, 5]] :: int list list))" unfolding l by simp_all
  have r1: "1 < length ([([1, 5], 0), ([2, 6], 1)] :: (int list \<times> nat) list)" by simp
  have q0: "0 < length ([([2, 6], 1), ([1, 5], 0)] :: (int list \<times> nat) list)" by simp
  have hq: "distinct (map snd ([([2, 6], 1), ([1, 5], 0)] :: (int list \<times> nat) list)) \<and> set (map snd ([([2, 6], 1), ([1, 5], 0)] :: (int list \<times> nat) list)) = {..<length ([([2, 6], 1), ([1, 5], 0)] :: (int list \<times> nat) list)}"
    by (simp add: lessThan_Suc insert_commute)
  have h: "([[1, 2, 1], [5, 6, 5]] :: int list list) \<noteq> [] \<and> (\<forall>t \<in> set ([[1, 2, 1], [5, 6, 5]] :: int list list). length t = 3)"
    by simp
  note c1 = t [THEN conjunct1]
  note u2 = t [THEN conjunct2]
  note c2 = u2 [THEN conjunct1, rule_format, OF l2]
  note u3 = u2 [THEN conjunct2]
  note c3 = u3 [THEN conjunct1, rule_format]
  note u4 = u3 [THEN conjunct2]
  note c4 = u4 [THEN conjunct1]
  note u5 = u4 [THEN conjunct2]
  note c5 = u5 [THEN conjunct1]
  note u6 = u5 [THEN conjunct2]
  note c6 = u6 [THEN conjunct1]
  note u7 = u6 [THEN conjunct2]
  note c7 = u7 [THEN conjunct1]
  note u8 = u7 [THEN conjunct2]
  note u9 = u8 [THEN conjunct2]
  note c9 = u9 [THEN conjunct1, rule_format, OF l1]
  note u10 = u9 [THEN conjunct2]
  note c10 = u10 [THEN conjunct1]
  note u11 = u10 [THEN conjunct2]
  note c11 = u11 [THEN conjunct1, rule_format, OF r1]
  note u12 = u11 [THEN conjunct2]
  note c12 = u12 [THEN conjunct1, THEN spec, THEN mp, OF hq]
  note c12a = c12 [THEN conjunct1]
  note c12b = c12 [THEN conjunct2, rule_format, OF q0]
  note c13 = u12 [THEN conjunct2, THEN mp, OF h]
  have lt: "(2::nat) < 3" by simp
  note c13a = c13 [THEN conjunct1]
  note c13b = c13 [THEN conjunct2, rule_format, OF lt]
  show ?thesis
    by (intro conjI e c1 c2 c3 [OF l0 l2] c3 [OF l0 l1] c4 c5 c6 c7
      c9 [THEN conjunct1] c9 [THEN conjunct2, THEN conjunct1]
      c9 [THEN conjunct2, THEN conjunct2, THEN conjunct1]
      c9 [THEN conjunct2, THEN conjunct2, THEN conjunct2]
      c10 c11 c12a c12b example_write_records c13a c13b)
qed

section \<open>The block-size search\<close>

lemma candidate_block_sizes_eq: "candidate_block_sizes = [32, 64, 128, 256, 512]"
  by (simp add: candidate_block_sizes_def upt_conv_Cons)

text \<open>
  The tables of the generator have \<open>MAX_UNICODE\<close> entries, which every candidate block
  size divides: no block of a run of the generator is short.
\<close>

lemma candidates_divide_MAX_UNICODE:
  "list_all (\<lambda>B. B dvd MAX_UNICODE) candidate_block_sizes"
  by (simp add: candidate_block_sizes_eq MAX_UNICODE_def)

lemma get_type_size_ok:
  assumes "table \<noteq> []" and "\<forall>x \<in> set table. 0 \<le> x \<and> x \<le> 4294967295"
  shows "\<exists>ty w. get_type_size table = Inr (ty, w)"
proof -
  from assms have "0 \<le> Min (set table)" "Max (set table) \<le> 4294967295" by simp_all
  with assms(1) show ?thesis
    by (simp add: get_type_size_def ladder_unfold)
qed

lemma get_tables_size_two:
  "get_tables_size [t1, t2] =
     (case get_type_size t1 of Inl e \<Rightarrow> Inl e
      | Inr (ty1, w1) \<Rightarrow>
          (case get_type_size t2 of Inl e \<Rightarrow> Inl e
           | Inr (ty2, w2) \<Rightarrow> Inr (w1 * length t1 + w2 * length t2)))"
  by (simp add: get_tables_size_def split: sum.splits prod.splits)

lemma candidate_size_formula:
  assumes "candidate_size nr rs tb B = Inr (sz, s1, s2)"
  shows "compress_table tb B = Inr (s1, s2) \<and>
     (\<exists>ty1 w1 ty2 w2. get_type_size (map int s1) = Inr (ty1, w1) \<and>
        get_type_size (map int s2) = Inr (ty2, w2) \<and>
        sz = nr * rs + w1 * length s1 + w2 * length s2)"
  using assms
  by (auto simp: candidate_size_def get_tables_size_two Let_def split: sum.splits prod.splits)

lemma candidate_size_total:
  assumes B: "0 < B" and ne: "tb \<noteq> []" and len: "length tb \<le> 4294967296"
    and vals: "\<forall>x \<in> set tb. x < 4294967296"
  shows "\<exists>sz s1 s2. candidate_size nr rs tb B = Inr (sz, s1, s2)"
proof -
  from compress_table_total [OF B] obtain s1 s2
    where ct: "compress_table tb B = Inr (s1, s2)" by blast
  from ne have n0: "0 < length tb" by simp
  have l1: "length s1 = (length tb + B - 1) div B"
    using compress_table_length_stage1 [OF B ct] by (simp add: length_blocks_of)
  from div_lt_nblocks [OF B n0] l1 have ne1: "map int s1 \<noteq> []" by auto
  from compress_table_lookup(1) [OF B ct n0] have ne2: "map int s2 \<noteq> []" by auto
  have v1: "\<forall>x \<in> set (map int s1). 0 \<le> x \<and> x \<le> 4294967295"
  proof
    fix x assume "x \<in> set (map int s1)"
    then obtain i where i: "i < length s1" and x: "x = int (s1 ! i)"
      by (auto simp: in_set_conv_nth)
    from compress_table_stage1_le [OF B ct i] have "s1 ! i \<le> i" .
    moreover from i l1 have "i * B < length tb" by (simp add: block_index_bound(2) [OF B])
    then have "i < length tb" using B
      by (metis One_nat_def Suc_leI le_trans linorder_not_less mult.right_neutral mult_le_mono2)
    ultimately have "s1 ! i < 4294967296" using len by simp
    with x show "0 \<le> x \<and> x \<le> 4294967295" by simp
  qed
  have v2: "\<forall>x \<in> set (map int s2). 0 \<le> x \<and> x \<le> 4294967295"
  proof
    fix x assume "x \<in> set (map int s2)"
    then obtain y where y: "y \<in> set s2" and x: "x = int y" by auto
    from compress_table_values [OF B ct] y have "y \<in> set tb" by blast
    with vals have "y < 4294967296" by simp
    with x show "0 \<le> x \<and> x \<le> 4294967295" by simp
  qed
  from get_type_size_ok [OF ne1 v1] obtain ty1 w1
    where g1: "get_type_size (map int s1) = Inr (ty1, w1)" by blast
  from get_type_size_ok [OF ne2 v2] obtain ty2 w2
    where g2: "get_type_size (map int s2) = Inr (ty2, w2)" by blast
  show ?thesis
    by (simp add: candidate_size_def ct get_tables_size_two g1 g2)
qed

lemma search_fold:
  assumes "fold_err (search_step nr rs tb) cands (m0, r0) = Inr (ms, ret)"
  shows "(\<forall>B \<in> set cands. \<exists>sz s1 s2. candidate_size nr rs tb B = Inr (sz, s1, s2) \<and> ms \<le> sz) \<and>
     ms \<le> m0 \<and>
     ((ret = r0 \<and> ms = m0) \<or>
      (\<exists>pre B post s1 s2. cands = pre @ B # post \<and> ret = Some (s1, s2, B) \<and>
         candidate_size nr rs tb B = Inr (ms, s1, s2) \<and> ms < m0 \<and>
         (\<forall>B' \<in> set pre. \<exists>sz t1 t2. candidate_size nr rs tb B' = Inr (sz, t1, t2) \<and> ms < sz)))"
  using assms
proof (induction cands arbitrary: m0 r0)
  case Nil
  then show ?case by simp
next
  case (Cons B cands)
  from Cons.prems obtain m1 r1 where
    step: "search_step nr rs tb B (m0, r0) = Inr (m1, r1)"
    and rest: "fold_err (search_step nr rs tb) cands (m1, r1) = Inr (ms, ret)"
    by (auto split: sum.splits)
  from step obtain sz s1 s2 where cs: "candidate_size nr rs tb B = Inr (sz, s1, s2)"
    by (auto simp: search_step_def split: sum.splits)
  note IH = Cons.IH [OF rest]
  from IH have all: "\<forall>B' \<in> set cands. \<exists>sz s1 s2. candidate_size nr rs tb B' = Inr (sz, s1, s2) \<and> ms \<le> sz"
    and le: "ms \<le> m1" by blast+
  from IH have dis: "(ret = r1 \<and> ms = m1) \<or>
      (\<exists>pre B' post s1 s2. cands = pre @ B' # post \<and> ret = Some (s1, s2, B') \<and>
         candidate_size nr rs tb B' = Inr (ms, s1, s2) \<and> ms < m1 \<and>
         (\<forall>B' \<in> set pre. \<exists>sz t1 t2. candidate_size nr rs tb B' = Inr (sz, t1, t2) \<and> ms < sz))"
    by blast
  show ?case
  proof (cases "sz < m0")
    case True
    with step cs have m1: "m1 = sz" and r1: "r1 = Some (s1, s2, B)"
      by (simp_all add: search_step_def)
    have 1: "\<forall>B' \<in> set (B # cands). \<exists>sz s1 s2. candidate_size nr rs tb B' = Inr (sz, s1, s2) \<and> ms \<le> sz"
      using all cs le m1 by auto
    have 2: "ms \<le> m0" using le m1 True by simp
    from dis have 3: "\<exists>pre B' post s1 s2. B # cands = pre @ B' # post \<and> ret = Some (s1, s2, B') \<and>
         candidate_size nr rs tb B' = Inr (ms, s1, s2) \<and> ms < m0 \<and>
         (\<forall>B' \<in> set pre. \<exists>sz t1 t2. candidate_size nr rs tb B' = Inr (sz, t1, t2) \<and> ms < sz)"
    proof
      assume "ret = r1 \<and> ms = m1"
      with r1 m1 cs True have "B # cands = [] @ B # cands \<and> ret = Some (s1, s2, B) \<and>
         candidate_size nr rs tb B = Inr (ms, s1, s2) \<and> ms < m0 \<and>
         (\<forall>B' \<in> set []. \<exists>sz t1 t2. candidate_size nr rs tb B' = Inr (sz, t1, t2) \<and> ms < sz)"
        by simp
      then show ?thesis by blast
    next
      assume "\<exists>pre B' post s1 s2. cands = pre @ B' # post \<and> ret = Some (s1, s2, B') \<and>
         candidate_size nr rs tb B' = Inr (ms, s1, s2) \<and> ms < m1 \<and>
         (\<forall>B' \<in> set pre. \<exists>sz t1 t2. candidate_size nr rs tb B' = Inr (sz, t1, t2) \<and> ms < sz)"
      then obtain pre B' post t1 t2 where p: "cands = pre @ B' # post" "ret = Some (t1, t2, B')"
        "candidate_size nr rs tb B' = Inr (ms, t1, t2)" "ms < m1"
        "\<forall>B' \<in> set pre. \<exists>sz t1 t2. candidate_size nr rs tb B' = Inr (sz, t1, t2) \<and> ms < sz"
        by blast
      from p m1 True cs have "B # cands = (B # pre) @ B' # post \<and> ret = Some (t1, t2, B') \<and>
         candidate_size nr rs tb B' = Inr (ms, t1, t2) \<and> ms < m0 \<and>
         (\<forall>B' \<in> set (B # pre). \<exists>sz t1 t2. candidate_size nr rs tb B' = Inr (sz, t1, t2) \<and> ms < sz)"
        by simp
      then show ?thesis by blast
    qed
    from 1 2 3 show ?thesis by blast
  next
    case False
    with step cs have m1: "m1 = m0" and r1: "r1 = r0"
      by (simp_all add: search_step_def)
    have 1: "\<forall>B' \<in> set (B # cands). \<exists>sz s1 s2. candidate_size nr rs tb B' = Inr (sz, s1, s2) \<and> ms \<le> sz"
      using all cs le m1 False by auto
    have 2: "ms \<le> m0" using le m1 by simp
    from dis have 3: "(ret = r0 \<and> ms = m0) \<or> (\<exists>pre B' post s1 s2. B # cands = pre @ B' # post \<and> ret = Some (s1, s2, B') \<and>
         candidate_size nr rs tb B' = Inr (ms, s1, s2) \<and> ms < m0 \<and>
         (\<forall>B' \<in> set pre. \<exists>sz t1 t2. candidate_size nr rs tb B' = Inr (sz, t1, t2) \<and> ms < sz))"
    proof
      assume "ret = r1 \<and> ms = m1"
      with r1 m1 show ?thesis by simp
    next
      assume "\<exists>pre B' post s1 s2. cands = pre @ B' # post \<and> ret = Some (s1, s2, B') \<and>
         candidate_size nr rs tb B' = Inr (ms, s1, s2) \<and> ms < m1 \<and>
         (\<forall>B' \<in> set pre. \<exists>sz t1 t2. candidate_size nr rs tb B' = Inr (sz, t1, t2) \<and> ms < sz)"
      then obtain pre B' post t1 t2 where p: "cands = pre @ B' # post" "ret = Some (t1, t2, B')"
        "candidate_size nr rs tb B' = Inr (ms, t1, t2)" "ms < m1"
        "\<forall>B' \<in> set pre. \<exists>sz t1 t2. candidate_size nr rs tb B' = Inr (sz, t1, t2) \<and> ms < sz"
        by blast
      from p m1 False cs have "B # cands = (B # pre) @ B' # post \<and> ret = Some (t1, t2, B') \<and>
         candidate_size nr rs tb B' = Inr (ms, t1, t2) \<and> ms < m0 \<and>
         (\<forall>B' \<in> set (B # pre). \<exists>sz t1 t2. candidate_size nr rs tb B' = Inr (sz, t1, t2) \<and> ms < sz)"
        by simp
      then show ?thesis by blast
    qed
    from 1 2 3 show ?thesis by blast
  qed
qed

lemma search_fold_total:
  assumes "\<forall>B \<in> set cands. \<exists>r. candidate_size nr rs tb B = Inr r"
  shows "\<exists>st'. fold_err (search_step nr rs tb) cands st = Inr st'"
  using assms
proof (induction cands arbitrary: st)
  case Nil
  show ?case by simp
next
  case (Cons B cands)
  from Cons.prems obtain sz s1 s2 where cs: "candidate_size nr rs tb B = Inr (sz, s1, s2)"
    by (metis list.set_intros(1) prod_cases3)
  obtain m0 r0 where st: "st = (m0, r0)" by (cases st) auto
  from cs have "\<exists>st1. search_step nr rs tb B st = Inr st1"
    by (simp add: search_step_def st)
  then obtain st1 where "search_step nr rs tb B st = Inr st1" ..
  moreover from Cons.prems have "\<exists>st'. fold_err (search_step nr rs tb) cands st1 = Inr st'"
    by (intro Cons.IH) simp
  ultimately show ?case by simp
qed

lemma sorted_split_before:
  fixes B :: nat
  assumes "sorted (pre @ B # post)" and "B' \<in> set (pre @ B # post)" and "B' < B"
  shows "B' \<in> set pre"
  using assms by (auto simp: sorted_append)


text \<open>
  Claim C2. The search tries the block sizes 32, 64, 128, 256, 512 in this order. The size
  of a candidate is the number of records times the record size, plus the size of its
  \<open>stage1\<close> and of its \<open>stage2\<close>, each at the width \<open>get_type_size\<close> selects. The
  block size the search retains has a size no greater than that of any candidate, and
  every candidate before it (every smaller one) has a strictly greater size, so the first
  minimal candidate is the one retained. For a non-empty table of at most \<open>2^32\<close> values
  below \<open>2^32\<close>, the search retains a block size as soon as one candidate's size is
  below the initial \<open>min_size\<close>.
\<close>

theorem block_size_search_optimal:
  "candidate_block_sizes = [32, 64, 128, 256, 512] \<and>
   (\<forall>B sz s1 s2. candidate_size n_records record_size table B = Inr (sz, s1, s2) \<longrightarrow>
      compress_table table B = Inr (s1, s2) \<and>
      (\<exists>ty1 w1 ty2 w2. get_type_size (map int s1) = Inr (ty1, w1) \<and>
         get_type_size (map int s2) = Inr (ty2, w2) \<and>
         sz = n_records * record_size + w1 * length s1 + w2 * length s2)) \<and>
   (\<forall>ms s1 s2 B.
      block_size_search maxsize n_records record_size table = Inr (ms, Some (s1, s2, B)) \<longrightarrow>
       B \<in> set candidate_block_sizes \<and>
       candidate_size n_records record_size table B = Inr (ms, s1, s2) \<and>
       (\<forall>B' \<in> set candidate_block_sizes. \<exists>sz t1 t2.
          candidate_size n_records record_size table B' = Inr (sz, t1, t2) \<and>
          ms \<le> sz \<and> (B' < B \<longrightarrow> ms < sz))) \<and>
   (table \<noteq> [] \<and> length table \<le> 4294967296 \<and> (\<forall>x \<in> set table. x < 4294967296) \<and>
    (\<exists>B' \<in> set candidate_block_sizes. \<exists>sz t1 t2.
       candidate_size n_records record_size table B' = Inr (sz, t1, t2) \<and> sz < maxsize) \<longrightarrow>
    (\<exists>ms s1 s2 B.
       block_size_search maxsize n_records record_size table = Inr (ms, Some (s1, s2, B))))"
proof -
  let ?cs = "candidate_size n_records record_size table"
  have 1: "candidate_block_sizes = [32, 64, 128, 256, 512]" by (rule candidate_block_sizes_eq)
  have 2: "\<forall>B sz s1 s2. ?cs B = Inr (sz, s1, s2) \<longrightarrow>
      compress_table table B = Inr (s1, s2) \<and>
      (\<exists>ty1 w1 ty2 w2. get_type_size (map int s1) = Inr (ty1, w1) \<and>
         get_type_size (map int s2) = Inr (ty2, w2) \<and>
         sz = n_records * record_size + w1 * length s1 + w2 * length s2)"
    using candidate_size_formula by blast
  have 3: "\<forall>ms s1 s2 B.
      block_size_search maxsize n_records record_size table = Inr (ms, Some (s1, s2, B)) \<longrightarrow>
       B \<in> set candidate_block_sizes \<and>
       candidate_size n_records record_size table B = Inr (ms, s1, s2) \<and>
       (\<forall>B' \<in> set candidate_block_sizes. \<exists>sz t1 t2.
          candidate_size n_records record_size table B' = Inr (sz, t1, t2) \<and>
          ms \<le> sz \<and> (B' < B \<longrightarrow> ms < sz))"
  proof (intro allI impI)
    fix ms s1 s2 B
    assume "block_size_search maxsize n_records record_size table = Inr (ms, Some (s1, s2, B))"
    then have f: "fold_err (search_step n_records record_size table) candidate_block_sizes
        (maxsize, None) = Inr (ms, Some (s1, s2, B))"
      by (simp add: block_size_search_def)
    note sf = search_fold [OF f]
    note all = sf [THEN conjunct1]
    note dis = sf [THEN conjunct2, THEN conjunct2]
    from dis have "\<exists>pre B' post t1 t2. candidate_block_sizes = pre @ B' # post \<and>
         Some (s1, s2, B) = Some (t1, t2, B') \<and> ?cs B' = Inr (ms, t1, t2) \<and> ms < maxsize \<and>
         (\<forall>B' \<in> set pre. \<exists>sz t1 t2. ?cs B' = Inr (sz, t1, t2) \<and> ms < sz)"
      by (elim disjE) simp_all
    then obtain pre B' post t1 t2 where sp': "candidate_block_sizes = pre @ B' # post"
      and eq: "Some (s1, s2, B) = Some (t1, t2, B')"
      and cs': "?cs B' = Inr (ms, t1, t2)"
      and before: "\<forall>B' \<in> set pre. \<exists>sz t1 t2. ?cs B' = Inr (sz, t1, t2) \<and> ms < sz"
      by blast
    from eq have "t1 = s1" "t2 = s2" "B' = B" by simp_all
    with sp' cs' have sp: "candidate_block_sizes = pre @ B # post"
      and cs: "?cs B = Inr (ms, s1, s2)" by simp_all
    have srt: "sorted (pre @ B # post)" unfolding sp [symmetric] 1 by simp
    have a: "B \<in> set candidate_block_sizes" unfolding sp by simp
    have c: "\<forall>B' \<in> set candidate_block_sizes. \<exists>sz t1 t2.
          ?cs B' = Inr (sz, t1, t2) \<and> ms \<le> sz \<and> (B' < B \<longrightarrow> ms < sz)"
    proof
      fix B' assume m: "B' \<in> set candidate_block_sizes"
      with all obtain sz t1 t2 where s: "?cs B' = Inr (sz, t1, t2)" "ms \<le> sz" by blast
      have "B' < B \<longrightarrow> ms < sz"
      proof
        assume "B' < B"
        from m have m': "B' \<in> set (pre @ B # post)" unfolding sp .
        from srt m' \<open>B' < B\<close> have "B' \<in> set pre" by (rule sorted_split_before)
        with before obtain sz' u1 u2 where "?cs B' = Inr (sz', u1, u2)" "ms < sz'" by blast
        with s(1) show "ms < sz" by simp
      qed
      with s show "\<exists>sz t1 t2. ?cs B' = Inr (sz, t1, t2) \<and> ms \<le> sz \<and> (B' < B \<longrightarrow> ms < sz)"
        by blast
    qed
    from a cs c show "B \<in> set candidate_block_sizes \<and>
       candidate_size n_records record_size table B = Inr (ms, s1, s2) \<and>
       (\<forall>B' \<in> set candidate_block_sizes. \<exists>sz t1 t2.
          candidate_size n_records record_size table B' = Inr (sz, t1, t2) \<and>
          ms \<le> sz \<and> (B' < B \<longrightarrow> ms < sz))" by blast
  qed
  have 4: "table \<noteq> [] \<and> length table \<le> 4294967296 \<and> (\<forall>x \<in> set table. x < 4294967296) \<and>
    (\<exists>B' \<in> set candidate_block_sizes. \<exists>sz t1 t2. ?cs B' = Inr (sz, t1, t2) \<and> sz < maxsize) \<longrightarrow>
    (\<exists>ms s1 s2 B.
       block_size_search maxsize n_records record_size table = Inr (ms, Some (s1, s2, B)))"
  proof
    assume h: "table \<noteq> [] \<and> length table \<le> 4294967296 \<and> (\<forall>x \<in> set table. x < 4294967296) \<and>
      (\<exists>B' \<in> set candidate_block_sizes. \<exists>sz t1 t2. ?cs B' = Inr (sz, t1, t2) \<and> sz < maxsize)"
    from h have ne: "table \<noteq> []" and len: "length table \<le> 4294967296"
      and vals: "\<forall>x \<in> set table. x < 4294967296" by blast+
    from h obtain B' sz t1 t2 where b: "B' \<in> set candidate_block_sizes"
      "?cs B' = Inr (sz, t1, t2)" "sz < maxsize" by blast
    have "\<forall>B \<in> set candidate_block_sizes. \<exists>r. ?cs B = Inr r"
    proof
      fix B assume "B \<in> set candidate_block_sizes"
      then have "0 < B" unfolding 1 by auto
      from candidate_size_total [OF this ne len vals, of n_records record_size]
      show "\<exists>r. ?cs B = Inr r" by blast
    qed
    from search_fold_total [OF this, of "(maxsize, None)"] obtain st'
      where f': "fold_err (search_step n_records record_size table) candidate_block_sizes
        (maxsize, None) = Inr st'" ..
    obtain ms ret where st': "st' = (ms, ret)" by (cases st') auto
    note f = f' [unfolded st']
    note sf = search_fold [OF f]
    note all = sf [THEN conjunct1]
    note dis = sf [THEN conjunct2, THEN conjunct2]
    from all b(1) obtain sz' u1 u2 where "?cs B' = Inr (sz', u1, u2)" "ms \<le> sz'" by blast
    with b(2,3) have lt: "ms < maxsize" by simp
    from dis lt have "\<exists>s1 s2 B. ret = Some (s1, s2, B)"
      by (elim disjE) blast+
    then obtain s1 s2 B where "ret = Some (s1, s2, B)" by blast
    with f have "block_size_search maxsize n_records record_size table = Inr (ms, Some (s1, s2, B))"
      by (simp add: block_size_search_def)
    then show "\<exists>ms s1 s2 B.
       block_size_search maxsize n_records record_size table = Inr (ms, Some (s1, s2, B))"
      by blast
  qed
  show ?thesis by (intro conjI 1 2 3 4)
qed


lemma block_size_search_retained:
  assumes "block_size_search maxsize nr rs tb = Inr (ms, Some (s1, s2, B))"
  shows "0 < B" and "compress_table tb B = Inr (s1, s2)"
proof -
  from assms have f: "fold_err (search_step nr rs tb) candidate_block_sizes
        (maxsize, None) = Inr (ms, Some (s1, s2, B))"
    by (simp add: block_size_search_def)
  note dis = search_fold [OF f, THEN conjunct2, THEN conjunct2]
  from dis have "\<exists>pre B' post t1 t2. candidate_block_sizes = pre @ B' # post \<and>
         Some (s1, s2, B) = Some (t1, t2, B') \<and> candidate_size nr rs tb B' = Inr (ms, t1, t2)"
    by (elim disjE) (simp, blast)
  then obtain pre B' post t1 t2 where sp': "candidate_block_sizes = pre @ B' # post"
      and eq: "Some (s1, s2, B) = Some (t1, t2, B')"
      and cs': "candidate_size nr rs tb B' = Inr (ms, t1, t2)"
    by blast
  from eq have e: "t1 = s1" "t2 = s2" "B' = B" by simp_all
  from e have "B \<in> set (pre @ B' # post)" by simp
  then have "B \<in> set candidate_block_sizes" unfolding sp' .
  then show "0 < B" unfolding candidate_block_sizes_eq by auto
  from cs' e candidate_size_formula [of nr rs tb B ms s1 s2]
  show "compress_table tb B = Inr (s1, s2)" by simp
qed


lemma example_type_size:
  "get_type_size (map int [0 :: nat]) = Inr (''uint8_t'', 1)"
  "get_type_size [0] = Inr (''uint8_t'', 1)"
  "get_type_size [0, 2, 0, 3] = Inr (''uint8_t'', 1)"
  "get_type_size (map int [0, 2, 0, 3 :: nat]) = Inr (''uint8_t'', 1)"
  by (simp_all add: get_type_size_def ladder_unfold)

lemma example_compress_32: "compress_table [0, 2, 0, 3 :: nat] 32 = Inr ([0], [0, 2, 0, 3])"
  by code_simp

lemma example_size_32: "candidate_size 64 12 [0, 2, 0, 3 :: nat] 32 = Inr (773, [0], [0, 2, 0, 3])"
  by (simp add: candidate_size_def example_compress_32 get_tables_size_two example_type_size)

lemma example_compress_64: "compress_table [0, 2, 0, 3 :: nat] 64 = Inr ([0], [0, 2, 0, 3])"
  by code_simp

lemma example_size_64: "candidate_size 64 12 [0, 2, 0, 3 :: nat] 64 = Inr (773, [0], [0, 2, 0, 3])"
  by (simp add: candidate_size_def example_compress_64 get_tables_size_two example_type_size)

lemma example_compress_128: "compress_table [0, 2, 0, 3 :: nat] 128 = Inr ([0], [0, 2, 0, 3])"
  by code_simp

lemma example_size_128: "candidate_size 64 12 [0, 2, 0, 3 :: nat] 128 = Inr (773, [0], [0, 2, 0, 3])"
  by (simp add: candidate_size_def example_compress_128 get_tables_size_two example_type_size)

lemma example_compress_256: "compress_table [0, 2, 0, 3 :: nat] 256 = Inr ([0], [0, 2, 0, 3])"
  by code_simp

lemma example_size_256: "candidate_size 64 12 [0, 2, 0, 3 :: nat] 256 = Inr (773, [0], [0, 2, 0, 3])"
  by (simp add: candidate_size_def example_compress_256 get_tables_size_two example_type_size)

lemma example_compress_512: "compress_table [0, 2, 0, 3 :: nat] 512 = Inr ([0], [0, 2, 0, 3])"
  by code_simp

lemma example_size_512: "candidate_size 64 12 [0, 2, 0, 3 :: nat] 512 = Inr (773, [0], [0, 2, 0, 3])"
  by (simp add: candidate_size_def example_compress_512 get_tables_size_two example_type_size)

lemma example_search:
  "block_size_search 9223372036854775807 64 12 [0, 2, 0, 3 :: nat] = Inr (773, Some ([0], [0, 2, 0, 3], 32))"
  by (simp add: block_size_search_def candidate_block_sizes_eq search_step_def example_size_32 example_size_64 example_size_128 example_size_256 example_size_512)

theorem block_size_search_optimal_witness:
  "block_size_search 9223372036854775807 64 12 [0, 2, 0, 3 :: nat] = Inr (773, Some ([0], [0, 2, 0, 3], 32)) \<and>
   (32 :: nat) \<in> set candidate_block_sizes \<and>
   candidate_size 64 12 [0, 2, 0, 3 :: nat] 32 = Inr (773, [0], [0, 2, 0, 3]) \<and>
   (\<exists>sz t1 t2. candidate_size 64 12 [0, 2, 0, 3 :: nat] 64 = Inr (sz, t1, t2) \<and>
      773 \<le> sz \<and> ((64 :: nat) < 32 \<longrightarrow> 773 < sz)) \<and>
   (\<exists>ms s1 s2 B. block_size_search 9223372036854775807 64 12 [0, 2, 0, 3 :: nat] = Inr (ms, Some (s1, s2, B)))"
proof -
  note e = example_search
  note t = block_size_search_optimal [of 64 12 "[0, 2, 0, 3 :: nat]" 9223372036854775807]
  note t3 = t [THEN conjunct2, THEN conjunct2, THEN conjunct1, rule_format, OF e]
  have m: "(64 :: nat) \<in> set candidate_block_sizes" by (simp add: candidate_block_sizes_eq)
  note b = t3 [THEN conjunct2, THEN conjunct2, rule_format, OF m]
  have h: "[0, 2, 0, 3 :: nat] \<noteq> [] \<and> length [0, 2, 0, 3 :: nat] \<le> 4294967296 \<and>
      (\<forall>x \<in> set [0, 2, 0, 3 :: nat]. x < 4294967296) \<and>
      (\<exists>B' \<in> set candidate_block_sizes. \<exists>sz t1 t2.
         candidate_size 64 12 [0, 2, 0, 3 :: nat] B' = Inr (sz, t1, t2) \<and> sz < 9223372036854775807)"
  proof (intro conjI)
    show "\<exists>B' \<in> set candidate_block_sizes. \<exists>sz t1 t2.
         candidate_size 64 12 [0, 2, 0, 3 :: nat] B' = Inr (sz, t1, t2) \<and> sz < 9223372036854775807"
      using m example_size_64 by (intro bexI [of _ 64]) simp_all
  qed simp_all
  note t4 = t [THEN conjunct2, THEN conjunct2, THEN conjunct2, THEN mp, OF h]
  show ?thesis
    by (intro conjI e t3 [THEN conjunct1] t3 [THEN conjunct2, THEN conjunct1] b t4)
qed
section \<open>The two-stage lookup\<close>

text \<open>
  Claim C1. Let \<open>index\<close> and \<open>records\<close> be the result of \<open>combine_tables\<close>, and let the
  search retain the block size \<open>B\<close> with the tables \<open>min_stage1\<close> and \<open>min_stage2\<close>.
  Then for every position \<open>c\<close> of the tables (every code point below \<open>MAX_UNICODE\<close>
  when the tables have that length), the lookup
  \<open>min_stage2[min_stage1[c div B] * B + c mod B]\<close> is in range and gives \<open>index[c]\<close>,
  and the row of that id in the emitted record table is the tuple of the tables' values
  at \<open>c\<close>.
\<close>

theorem two_stage_round_trip:
  assumes "combine_tables tables = (index, records)"
    and "block_size_search maxsize (length records) record_size index =
           Inr (min_size, Some (min_stage1, min_stage2, B))"
  shows "length index = length (zip_star tables) \<and>
     (\<forall>c < length (zip_star tables).
        min_stage1 ! (c div B) * B + c mod B < length min_stage2 \<and>
        min_stage2 ! (min_stage1 ! (c div B) * B + c mod B) = index ! c \<and>
        index ! c < length (write_records records) \<and>
        write_records records ! (index ! c) = (zip_star tables ! c, index ! c)) \<and>
     (tables \<noteq> [] \<and> (\<forall>t \<in> set tables. length t = n) \<longrightarrow>
        length (zip_star tables) = n \<and>
        (\<forall>c < n. zip_star tables ! c = map (\<lambda>t. t ! c) tables))"
proof -
  note B = block_size_search_retained(1) [OF assms(2)]
  note ct = block_size_search_retained(2) [OF assms(2)]
  have len: "length index = length (zip_star tables)"
    using combine_tables_index [OF assms(1)] by simp
  note wr = combine_tables_write_records [OF assms(1)]
  have main: "\<forall>c < length (zip_star tables).
        min_stage1 ! (c div B) * B + c mod B < length min_stage2 \<and>
        min_stage2 ! (min_stage1 ! (c div B) * B + c mod B) = index ! c \<and>
        index ! c < length (write_records records) \<and>
        write_records records ! (index ! c) = (zip_star tables ! c, index ! c)"
  proof (intro allI impI)
    fix c assume c: "c < length (zip_star tables)"
    with len have c': "c < length index" by simp
    note l = compress_table_lookup [OF B ct c']
    note r = combine_tables_record(1,2) [OF assms(1) c]
    from l r show "min_stage1 ! (c div B) * B + c mod B < length min_stage2 \<and>
        min_stage2 ! (min_stage1 ! (c div B) * B + c mod B) = index ! c \<and>
        index ! c < length (write_records records) \<and>
        write_records records ! (index ! c) = (zip_star tables ! c, index ! c)"
      unfolding wr by (intro conjI)
  qed
  have eq: "tables \<noteq> [] \<and> (\<forall>t \<in> set tables. length t = n) \<longrightarrow>
        length (zip_star tables) = n \<and>
        (\<forall>c < n. zip_star tables ! c = map (\<lambda>t. t ! c) tables)"
    using zip_star_equal_length [of tables n] by blast
  show ?thesis by (intro conjI len main eq)
qed

lemma example2_type_size:
  "get_type_size (map int [0 :: nat]) = Inr (''uint8_t'', 1)"
  "get_type_size [0] = Inr (''uint8_t'', 1)"
  "get_type_size (map int [0, Suc 0, 0, 2]) = Inr (''uint8_t'', 1)"
  "get_type_size [0, 1, 0, 2] = Inr (''uint8_t'', 1)"
  by (simp_all add: get_type_size_def ladder_unfold)

lemma example2_compress_32: "compress_table [0, Suc 0, 0, 2] 32 = Inr ([0], [0, Suc 0, 0, 2])"
  by code_simp

lemma example2_size_32: "candidate_size nr rs [0, Suc 0, 0, 2] 32 = Inr (nr * rs + 5, [0], [0, Suc 0, 0, 2])"
  by (simp add: candidate_size_def example2_compress_32 get_tables_size_two example2_type_size)

lemma example2_compress_64: "compress_table [0, Suc 0, 0, 2] 64 = Inr ([0], [0, Suc 0, 0, 2])"
  by code_simp

lemma example2_size_64: "candidate_size nr rs [0, Suc 0, 0, 2] 64 = Inr (nr * rs + 5, [0], [0, Suc 0, 0, 2])"
  by (simp add: candidate_size_def example2_compress_64 get_tables_size_two example2_type_size)

lemma example2_compress_128: "compress_table [0, Suc 0, 0, 2] 128 = Inr ([0], [0, Suc 0, 0, 2])"
  by code_simp

lemma example2_size_128: "candidate_size nr rs [0, Suc 0, 0, 2] 128 = Inr (nr * rs + 5, [0], [0, Suc 0, 0, 2])"
  by (simp add: candidate_size_def example2_compress_128 get_tables_size_two example2_type_size)

lemma example2_compress_256: "compress_table [0, Suc 0, 0, 2] 256 = Inr ([0], [0, Suc 0, 0, 2])"
  by code_simp

lemma example2_size_256: "candidate_size nr rs [0, Suc 0, 0, 2] 256 = Inr (nr * rs + 5, [0], [0, Suc 0, 0, 2])"
  by (simp add: candidate_size_def example2_compress_256 get_tables_size_two example2_type_size)

lemma example2_compress_512: "compress_table [0, Suc 0, 0, 2] 512 = Inr ([0], [0, Suc 0, 0, 2])"
  by code_simp

lemma example2_size_512: "candidate_size nr rs [0, Suc 0, 0, 2] 512 = Inr (nr * rs + 5, [0], [0, Suc 0, 0, 2])"
  by (simp add: candidate_size_def example2_compress_512 get_tables_size_two example2_type_size)

lemma example2_search:
  assumes "nr * rs + 5 < M"
  shows "block_size_search M nr rs [0, Suc 0, 0, 2] = Inr (nr * rs + 5, Some ([0], [0, Suc 0, 0, 2], 32))"
  using assms
  by (simp add: block_size_search_def candidate_block_sizes_eq search_step_def example2_size_32 example2_size_64 example2_size_128 example2_size_256 example2_size_512)

theorem two_stage_round_trip_witness:
  "combine_tables ([[0, 2, 0, 3], [5, 6, 5, 7]] :: int list list) = (([0, 1, 0, 2] :: nat list), ([([0, 5], 0), ([2, 6], 1), ([3, 7], 2)] :: (int list \<times> nat) list)) \<and>
   block_size_search 9223372036854775807 (length ([([0, 5], 0), ([2, 6], 1), ([3, 7], 2)] :: (int list \<times> nat) list)) 2 ([0, 1, 0, 2] :: nat list) =
     Inr (11, Some ([0], ([0, 1, 0, 2] :: nat list), 32)) \<and>
   length ([0, 1, 0, 2] :: nat list) = length (zip_star ([[0, 2, 0, 3], [5, 6, 5, 7]] :: int list list)) \<and>
   [0] ! (3 div 32) * 32 + 3 mod 32 < length ([0, 1, 0, 2] :: nat list) \<and>
   ([0, 1, 0, 2] :: nat list) ! ([0] ! (3 div 32) * 32 + 3 mod 32) = ([0, 1, 0, 2] :: nat list) ! 3 \<and>
   ([0, 1, 0, 2] :: nat list) ! 3 < length (write_records ([([0, 5], 0), ([2, 6], 1), ([3, 7], 2)] :: (int list \<times> nat) list)) \<and>
   write_records ([([0, 5], 0), ([2, 6], 1), ([3, 7], 2)] :: (int list \<times> nat) list) ! (([0, 1, 0, 2] :: nat list) ! 3) = (zip_star ([[0, 2, 0, 3], [5, 6, 5, 7]] :: int list list) ! 3, ([0, 1, 0, 2] :: nat list) ! 3) \<and>
   length (zip_star ([[0, 2, 0, 3], [5, 6, 5, 7]] :: int list list)) = 4 \<and>
   zip_star ([[0, 2, 0, 3], [5, 6, 5, 7]] :: int list list) ! 3 = map (\<lambda>t. t ! 3) ([[0, 2, 0, 3], [5, 6, 5, 7]] :: int list list)"
proof -
  have e1: "combine_tables ([[0, 2, 0, 3], [5, 6, 5, 7]] :: int list list) = (([0, 1, 0, 2] :: nat list), ([([0, 5], 0), ([2, 6], 1), ([3, 7], 2)] :: (int list \<times> nat) list))"
    by code_simp
  have e2: "block_size_search 9223372036854775807 (length ([([0, 5], 0), ([2, 6], 1), ([3, 7], 2)] :: (int list \<times> nat) list)) 2 ([0, 1, 0, 2] :: nat list) =
     Inr (11, Some ([0], ([0, 1, 0, 2] :: nat list), 32))"
    using example2_search [of "length ([([0, 5], 0), ([2, 6], 1), ([3, 7], 2)] :: (int list \<times> nat) list)" 2 9223372036854775807] by simp
  note t = two_stage_round_trip [OF e1 e2, of 4]
  have h: "([[0, 2, 0, 3], [5, 6, 5, 7]] :: int list list) \<noteq> [] \<and> (\<forall>t \<in> set ([[0, 2, 0, 3], [5, 6, 5, 7]] :: int list list). length t = 4)" by simp
  have l: "3 < length (zip_star ([[0, 2, 0, 3], [5, 6, 5, 7]] :: int list list))" by (simp add: zip_star_def)
  have lt: "(3::nat) < 4" by simp
  note t1 = t [THEN conjunct1]
  note t2 = t [THEN conjunct2, THEN conjunct1, rule_format, OF l]
  note t3 = t [THEN conjunct2, THEN conjunct2, THEN mp, OF h]
  show ?thesis
    by (intro conjI e1 e2 t1 t2 [THEN conjunct1] t2 [THEN conjunct2, THEN conjunct1]
      t2 [THEN conjunct2, THEN conjunct2, THEN conjunct1]
      t2 [THEN conjunct2, THEN conjunct2, THEN conjunct2]
      t3 [THEN conjunct1] t3 [THEN conjunct2, rule_format, OF lt])
qed
section \<open>The digit sets\<close>

lemma digit_run_count:
  fixes first lastc :: nat
  assumes "first < lastc"
  shows "(lastc - first + 9) div 10 = Suc ((lastc - (first + 10) + 9) div 10)"
proof (cases "first + 10 \<le> lastc")
  case True
  then obtain d where d: "lastc = first + 10 + d" using le_Suc_ex by blast
  have e1: "lastc - first + 9 = (d + 9) + 10" unfolding d by simp
  have e2: "lastc - (first + 10) + 9 = d + 9" unfolding d by simp
  have "((d + 9) + 10) div 10 = Suc ((d + 9) div 10)" by simp
  then show ?thesis by (simp only: e1 e2)
next
  case False
  with assms obtain d where d: "lastc = first + d" "0 < d" "d < 10"
    by (metis le_Suc_ex less_imp_le_nat nat_add_left_cancel_less nat_add_left_cancel_le not_le zero_less_iff_neq_zero add.right_neutral less_irrefl)
  have e1: "lastc - first + 9 = d + 9" unfolding d by simp
  have e2: "lastc - (first + 10) + 9 = 9" unfolding d using d(3) by simp
  from d have "(d + 9) div 10 = 1" by (intro div_nat_eqI) simp_all
  then show ?thesis by (simp only: e1 e2)
qed

lemma digit_run_eq:
  "digit_run first lastc digitsets =
     digitsets @ map (\<lambda>k. first + 10 * k + 9) [0..<(lastc - first + 9) div 10]"
proof (induction first lastc digitsets rule: digit_run.induct)
  case (1 first lastc digitsets)
  show ?case
  proof (cases "first < lastc")
    case True
    define n where "n = (lastc - (first + 10) + 9) div 10"
    from True have n: "(lastc - first + 9) div 10 = Suc n"
      unfolding n_def by (rule digit_run_count)
    have "digit_run first lastc digitsets = digit_run (first + 10) lastc (digitsets @ [first + 9])"
      using True by (subst digit_run.simps) simp
    also have "\<dots> = (digitsets @ [first + 9]) @ map (\<lambda>k. first + 10 + 10 * k + 9) [0..<n]"
      unfolding n_def by (rule "1.IH" [OF True])
    also have "map (\<lambda>k. first + 10 + 10 * k + 9) [0..<n] =
        map (\<lambda>k. first + 10 * k + 9) (map Suc [0..<n])"
      by simp
    also have "map Suc [0..<n] = [Suc 0..<Suc n]" by (rule map_Suc_upt)
    finally have "digit_run first lastc digitsets =
        (digitsets @ [first + 9]) @ map (\<lambda>k. first + 10 * k + 9) [Suc 0..<Suc n]" .
    moreover have "[0..<Suc n] = 0 # [Suc 0..<Suc n]" by (rule upt_conv_Cons) simp
    ultimately show ?thesis
      unfolding n by (simp only: list.map append.simps append_assoc mult_0_right add_0_right)
  next
    case False
    then have "(lastc - first + 9) div 10 = 0" by simp
    moreover have "digit_run first lastc digitsets = digitsets"
      using False by (subst digit_run.simps) simp
    ultimately show ?thesis by simp
  qed
qed

lemma digit_range_multiple:
  assumes "(int lastc - int first + 1) mod 10 = 0"
  shows "digit_range (first, lastc) digitsets = Inr (digitsets @ runs_of (first, lastc))"
proof -
  have "(lastc - first + 9) div 10 = (lastc + 1 - first) div 10"
  proof (cases "first \<le> lastc")
    case True
    then have "int (lastc + 1 - first) = int lastc - int first + 1" by simp
    with assms have "int (lastc + 1 - first) mod 10 = 0" by simp
    then have "(lastc + 1 - first) mod 10 = 0"
      by (metis of_nat_0 of_nat_eq_iff of_nat_mod of_nat_numeral)
    then obtain m where m: "lastc + 1 - first = 10 * m" by (auto simp: mod_eq_0_iff_dvd)
    with True have "lastc - first + 9 = 10 * m + 8" by arith
    with m show ?thesis by simp
  next
    case False
    then show ?thesis by simp
  qed
  with assms show ?thesis
    by (simp add: digit_range_def digit_run_eq runs_of_def)
qed

lemma digit_fold_multiple:
  assumes "\<forall>(first, lastc) \<in> set ranges. (int lastc - int first + 1) mod 10 = 0"
  shows "fold_err digit_range ranges digitsets = Inr (digitsets @ concat (map runs_of ranges))"
  using assms
proof (induction ranges arbitrary: digitsets)
  case Nil
  show ?case by simp
next
  case (Cons r ranges)
  obtain first lastc where r: "r = (first, lastc)" by (cases r) auto
  with Cons.prems have m: "(int lastc - int first + 1) mod 10 = 0" by simp
  from Cons.prems have rest: "\<forall>(first, lastc) \<in> set ranges. (int lastc - int first + 1) mod 10 = 0"
    by simp
  show ?case
    unfolding r by (simp add: digit_range_multiple [OF m] Cons.IH [OF rest])
qed

text \<open>
  Claim C7, as amended. When the length of every declared range is a multiple of ten, the
  extractor returns the sorted concatenation of the runs of the ranges, where the runs of
  \<open>[first, last]\<close> are \<open>first + 9\<close>, \<open>first + 19\<close>, ...: one value per step of ten,
  \<open>(last - first + 1) / 10\<close> values. For the single range \<open>[0x30, 0x43]\<close> (20 code
  points) the output is \<open>[0x39, 0x43]\<close>. The claim's own example, \<open>[0x30, 0x49]\<close>, has
  26 code points: there the extractor does not return \<open>[0x39, 0x43]\<close>, and its inner
  loop alone yields three values.
\<close>

theorem digitsets_multiples_of_ten:
  "(\<forall>(first, lastc) \<in> set ranges. (int lastc - int first + 1) mod 10 = 0) \<longrightarrow>
     digitsets_of ranges = Inr (sort (concat (map runs_of ranges))) \<and>
     (\<forall>r \<in> set ranges. length (runs_of r) = (snd r + 1 - fst r) div 10 \<and>
        (\<forall>k < length (runs_of r). runs_of r ! k = fst r + 10 * k + 9))"
proof
  assume a: "\<forall>(first, lastc) \<in> set ranges. (int lastc - int first + 1) mod 10 = 0"
  have 1: "digitsets_of ranges = Inr (sort (concat (map runs_of ranges)))"
    by (simp add: digitsets_of_def digit_fold_multiple [OF a])
  have 2: "\<forall>r \<in> set ranges. length (runs_of r) = (snd r + 1 - fst r) div 10 \<and>
        (\<forall>k < length (runs_of r). runs_of r ! k = fst r + 10 * k + 9)"
    by (auto simp: runs_of_def)
  from 1 2 show "digitsets_of ranges = Inr (sort (concat (map runs_of ranges))) \<and>
     (\<forall>r \<in> set ranges. length (runs_of r) = (snd r + 1 - fst r) div 10 \<and>
        (\<forall>k < length (runs_of r). runs_of r ! k = fst r + 10 * k + 9))" ..
qed

lemma runs_of_examples:
  "runs_of (0x30, 0x43) = [0x39, 0x43]"
  "runs_of (0x660, 0x669) = [0x669]"
  "runs_of (0x30, 0x39) = [0x39]"
  by (simp_all add: runs_of_def upt_conv_Cons)

theorem digitsets_multiples_of_ten_witness:
  "digitsets_of [(0x30, 0x43)] = Inr [0x39, 0x43] \<and>
   digitsets_of [(0x660, 0x669), (0x30, 0x39)] = Inr [0x39, 0x669]"
proof -
  have a: "\<forall>(first, lastc) \<in> set [(0x30, 0x43 :: nat)]. (int lastc - int first + 1) mod 10 = 0"
    by simp
  have b: "\<forall>(first, lastc) \<in> set [(0x660, 0x669 :: nat), (0x30, 0x39)].
      (int lastc - int first + 1) mod 10 = 0"
    by simp
  from digitsets_multiples_of_ten [of "[(0x30, 0x43)]", THEN mp, OF a, THEN conjunct1]
    digitsets_multiples_of_ten [of "[(0x660, 0x669), (0x30, 0x39)]", THEN mp, OF b, THEN conjunct1]
  show ?thesis by (simp add: runs_of_examples)
qed

lemma digit_run_example: "digit_run 0x30 0x49 [] = [0x39, 0x43, 0x4D]"
  by (simp add: digit_run_eq upt_conv_Cons)

theorem digitsets_claimed_example_counterexample:
  "digitsets_of [(0x30, 0x49)] \<noteq> Inr [0x39, 0x43] \<and>
   sort (digit_run 0x30 0x49 []) \<noteq> [0x39, 0x43]"
  by (simp add: digitsets_of_def digit_range_def digit_run_example)

text \<open>
  Claim C9. A declared digit range whose length is not a multiple of ten is not reported
  and passed over: the call that should report it raises TypeError, and the extraction
  (with everything after it) does not take place. The emoji override, which reports with
  \<^verbatim>\<open>print\<close>, does proceed (lemma \<open>emoji_range_proceeds\<close> below).
\<close>

theorem digit_range_not_multiple_raises:
  "digitsets_of [(0x30, 0x49)] = Inl TypeError \<and>
   digitsets_of [(0x30, 0x49), (0x660, 0x669)] = Inl TypeError"
  by (simp add: digitsets_of_def digit_range_def)

lemma emoji_fold_proceeds:
  assumes "\<forall>i \<in> set is. i < length bp"
  shows "\<exists>bp' w'. fold_err (emoji_point other pict) is (bp, w) = Inr (bp', w') \<and>
     length bp' = length bp"
  using assms
proof (induction "is" arbitrary: bp w)
  case Nil
  show ?case by simp
next
  case (Cons i "is")
  from Cons.prems have i: "i < length bp" by simp
  let ?bp = "bp[i := pict]"
  let ?w = "if bp ! i \<noteq> other then w @ [(i, bp ! i)] else w"
  from i have step: "emoji_point other pict i (bp, w) = Inr (?bp, ?w)"
    by (simp add: emoji_point_def)
  from Cons.prems have "\<forall>j \<in> set is. j < length ?bp" by simp
  from Cons.IH [OF this, of ?w] obtain bp' w'
    where "fold_err (emoji_point other pict) is (?bp, ?w) = Inr (bp', w')"
      and "length bp' = length ?bp" by blast
  with step show ?case by simp
qed

lemma emoji_range_proceeds:
  assumes "lastc < length break_props"
  shows "\<exists>bp w. emoji_range other pict (char, lastc) (break_props, warnings) = Inr (bp, w) \<and>
     length bp = length break_props"
proof -
  have "\<forall>i \<in> set [char..<lastc + 1]. i < length break_props"
  proof
    fix i assume "i \<in> set [char..<lastc + 1]"
    then have "i \<le> lastc" by (simp del: upt_Suc)
    with assms show "i < length break_props" by simp
  qed
  from emoji_fold_proceeds [OF this] show ?thesis by (simp add: emoji_range_def)
qed

section \<open>The catalogs of lists\<close>

lemma fold_err_append:
  "fold_err f (xs @ ys) s =
     (case fold_err f xs s of Inl e \<Rightarrow> Inl e | Inr s' \<Rightarrow> fold_err f ys s')"
  by (induction xs arbitrary: s) (auto split: sum.splits)

lemma find_set_Some:
  "find_set s ls i0 = Some i \<Longrightarrow> i0 \<le> i \<and> i - i0 < length ls \<and> set (ls ! (i - i0)) = s"
proof (induction ls arbitrary: i0)
  case Nil
  then show ?case by simp
next
  case (Cons l ls)
  show ?case
  proof (cases "s = set l")
    case True
    with Cons.prems show ?thesis by simp
  next
    case False
    with Cons.prems have "find_set s ls (Suc i0) = Some i" by simp
    from Cons.IH [OF this] have a: "Suc i0 \<le> i" "i - Suc i0 < length ls"
      "set (ls ! (i - Suc i0)) = s" by simp_all
    from a(1) have "i - i0 = Suc (i - Suc i0)" by simp
    with a show ?thesis by simp
  qed
qed

lemma find_set_None:
  "find_set s ls i0 = None \<Longrightarrow> \<forall>l \<in> set ls. set l \<noteq> s"
  by (induction ls arbitrary: i0) (auto split: if_splits)

lemma bool_inv_step:
  assumes inv: "bool_inv n bprops k st" and k: "k < n" and len: "length bprops = n"
  shows "\<exists>st'. bool_props_step bprops k st = Inr st' \<and> bool_inv n bprops (Suc k) st'"
proof -
  obtain bp bls where st: "st = (bp, bls)" by (cases st) auto
  from inv st have lbp: "length bp = n" and ne: "bls \<noteq> []" and z: "bls ! 0 = []"
    and dist: "\<And>i j. i < length bls \<Longrightarrow> j < length bls \<Longrightarrow>
        set (bls ! i) = set (bls ! j) \<Longrightarrow> i = j"
    and old: "\<And>c. c < k \<Longrightarrow> bp ! c < length bls \<and> set (bls ! (bp ! c)) = set (bprops ! c)"
    by (auto simp: bool_inv_def)
  from k len have kb: "k < length bprops" by simp
  let ?s = "set (bprops ! k)"
  show ?thesis
  proof (cases "find_set ?s bls 0")
    case (Some i)
    from find_set_Some [OF Some] have i: "i < length bls" "set (bls ! i) = ?s" by simp_all
    from Some kb have step: "bool_props_step bprops k st = Inr (bp[k := i], bls)"
      by (simp add: bool_props_step_def st)
    have new: "\<forall>c < Suc k. bp[k := i] ! c < length bls \<and>
        set (bls ! (bp[k := i] ! c)) = set (bprops ! c)"
    proof (intro allI impI)
      fix c assume "c < Suc k"
      then consider "c < k" | "c = k" by arith
      then show "bp[k := i] ! c < length bls \<and> set (bls ! (bp[k := i] ! c)) = set (bprops ! c)"
      proof cases
        case 1
        with old [OF 1] show ?thesis by simp
      next
        case 2
        with i k lbp show ?thesis by simp
      qed
    qed
    have "bool_inv n bprops (Suc k) (bp[k := i], bls)"
      unfolding bool_inv_def prod.case
      using lbp ne z dist new by (intro conjI) auto
    with step show ?thesis by blast
  next
    case None
    let ?bls = "bls @ [bprops ! k]"
    from None kb ne have step: "bool_props_step bprops k st =
        Inr (bp[k := length bls], ?bls)"
      by (simp add: bool_props_step_def st)
    from find_set_None [OF None] have fresh: "\<And>i. i < length bls \<Longrightarrow> set (bls ! i) \<noteq> ?s"
      by simp
    have d': "\<forall>i < length ?bls. \<forall>j < length ?bls. set (?bls ! i) = set (?bls ! j) \<longrightarrow> i = j"
    proof (intro allI impI)
      fix i j assume i: "i < length ?bls" and j: "j < length ?bls"
        and e: "set (?bls ! i) = set (?bls ! j)"
      show "i = j"
      proof (cases "i < length bls")
        case True
        show ?thesis
        proof (cases "j < length bls")
          case jl: True
          with True e have "set (bls ! i) = set (bls ! j)" by (simp add: nth_append)
          with True jl show ?thesis by (rule dist)
        next
          case False
          with j have "j = length bls" by simp
          with True e have "set (bls ! i) = ?s" by (simp add: nth_append)
          with fresh [OF True] show ?thesis by simp
        qed
      next
        case False
        with i have il: "i = length bls" by simp
        show ?thesis
        proof (cases "j < length bls")
          case True
          with il e have "set (bls ! j) = ?s" by (simp add: nth_append)
          with fresh [OF True] show ?thesis by simp
        next
          case False
          with j il show ?thesis by simp
        qed
      qed
    qed
    have new: "\<forall>c < Suc k. bp[k := length bls] ! c < length ?bls \<and>
        set (?bls ! (bp[k := length bls] ! c)) = set (bprops ! c)"
    proof (intro allI impI)
      fix c assume "c < Suc k"
      then consider "c < k" | "c = k" by arith
      then show "bp[k := length bls] ! c < length ?bls \<and>
        set (?bls ! (bp[k := length bls] ! c)) = set (bprops ! c)"
      proof cases
        case 1
        with old [OF 1] show ?thesis by (simp add: nth_append)
      next
        case 2
        with k lbp show ?thesis by simp
      qed
    qed
    have z': "?bls ! 0 = []" using ne z by (simp add: nth_append)
    have "bool_inv n bprops (Suc k) (bp[k := length bls], ?bls)"
      unfolding bool_inv_def prod.case
      using lbp z' d' new by (intro conjI) simp_all
    with step show ?thesis by blast
  qed
qed

lemma bool_fold_inv:
  assumes len: "length bprops = n" and k: "k \<le> n"
  shows "\<exists>st. fold_err (bool_props_step bprops) [0..<k] (replicate n 0, [[]]) = Inr st \<and>
     bool_inv n bprops k st"
  using k
proof (induction k)
  case 0
  show ?case by (simp add: bool_inv_def)
next
  case (Suc k)
  then obtain st where f: "fold_err (bool_props_step bprops) [0..<k] (replicate n 0, [[]]) = Inr st"
    and inv: "bool_inv n bprops k st" by auto
  from Suc.prems have "k < n" by simp
  from bool_inv_step [OF inv this len] obtain st'
    where s: "bool_props_step bprops k st = Inr st'" and inv': "bool_inv n bprops (Suc k) st'"
    by blast
  have "fold_err (bool_props_step bprops) [0..<Suc k] (replicate n 0, [[]]) = Inr st'"
    by (simp add: fold_err_append f s)
  with inv' show ?case by blast
qed

lemma fill_fold:
  "fold_err (fill_point d v) is table = Inr table' \<Longrightarrow>
     length table' = length table \<and> (\<forall>c. c \<notin> set is \<longrightarrow> table' ! c = table ! c)"
proof (induction "is" arbitrary: table)
  case Nil
  then show ?case by simp
next
  case (Cons i "is")
  from Cons.prems obtain t1 where s: "fill_point d v i table = Inr t1"
    and r: "fold_err (fill_point d v) is t1 = Inr table'"
    by (auto split: sum.splits)
  from s have t1: "length t1 = length table" "\<And>c. c \<noteq> i \<Longrightarrow> t1 ! c = table ! c"
    by (auto simp: fill_point_def split: if_splits)
  from Cons.IH [OF r] t1 show ?case by auto
qed

lemma read_line_keeps:
  assumes "read_line gv d (char, lastc, field) (table, g) = Inr (table', g')"
  shows "length table' = length table"
    and "\<not> (char \<le> c \<and> c \<le> lastc) \<Longrightarrow> table' ! c = table ! c"
    and "\<exists>v. gv field g = Inr (v, g')"
proof -
  from assms obtain v where gv: "gv field g = Inr (v, g')"
    and f: "fold_err (fill_point d v) [char..<lastc + 1] table = Inr table'"
    by (auto simp: read_line_def split: sum.splits)
  from fill_fold [OF f] show "length table' = length table" by simp
  show "table' ! c = table ! c" if "\<not> (char \<le> c \<and> c \<le> lastc)"
  proof -
    from that have "c \<notin> set [char..<lastc + 1]" by auto
    with fill_fold [OF f] show ?thesis by simp
  qed
  from gv show "\<exists>v. gv field g = Inr (v, g')" by blast
qed

lemma read_fold_keeps:
  assumes "fold_err (read_line gv d) lines (table, g) = Inr (table', g')"
    and "\<And>field g v g'. gv field g = Inr (v, g') \<Longrightarrow> P g \<Longrightarrow> P g'"
    and "P g"
  shows "length table' = length table \<and> P g' \<and>
     (\<forall>c. (\<forall>(char, lastc, field) \<in> set lines. \<not> (char \<le> c \<and> c \<le> lastc)) \<longrightarrow>
        table' ! c = table ! c)"
  using assms(1,3)
proof (induction lines arbitrary: table g)
  case Nil
  then show ?case by simp
next
  case (Cons line lines)
  obtain char lastc field where line: "line = (char, lastc, field)" by (cases line) auto
  from Cons.prems(1) obtain t1 g1 where s: "read_line gv d (char, lastc, field) (table, g) = Inr (t1, g1)"
    and r: "fold_err (read_line gv d) lines (t1, g1) = Inr (table', g')"
    unfolding line by (auto split: sum.splits)
  note k = read_line_keeps [OF s]
  from k(3) assms(2) Cons.prems(2) have p1: "P g1" by blast
  from Cons.IH [OF r p1] have ih: "length table' = length t1" "P g'"
    "\<And>c. (\<forall>(char, lastc, field) \<in> set lines. \<not> (char \<le> c \<and> c \<le> lastc)) \<Longrightarrow>
        table' ! c = t1 ! c" by auto
  show ?case
  proof (intro conjI allI impI)
    show "length table' = length table" using ih(1) k(1) by simp
    show "P g'" by (rule ih(2))
    fix c assume a: "\<forall>(char, lastc, field) \<in> set (line # lines). \<not> (char \<le> c \<and> c \<le> lastc)"
    then have "\<not> (char \<le> c \<and> c \<le> lastc)" unfolding line by simp
    then have "t1 ! c = table ! c" by (rule k(2))
    moreover from a have "table' ! c = t1 ! c" by (intro ih(3)) simp
    ultimately show "table' ! c = table ! c" by simp
  qed
qed

lemma get_script_extension_head:
  assumes "get_script_extension abbrevs item_size field g = Inr (v, g')"
    and "fst g \<noteq> [] \<and> fst g ! 0 = []"
  shows "fst g' \<noteq> [] \<and> fst g' ! 0 = []"
  using assms
  by (cases g) (auto simp: get_script_extension_def Let_def nth_append
      split: if_splits option.splits)

lemma scriptx_default:
  assumes "scriptx_of abbrevs item_size n lines = Inr (scriptx, g')"
  shows "length scriptx = n \<and> fst g' \<noteq> [] \<and> fst g' ! 0 = [] \<and>
     (\<forall>c < n. (\<forall>(char, lastc, field) \<in> set lines. \<not> (char \<le> c \<and> c \<le> lastc)) \<longrightarrow>
        scriptx ! c = 0)"
proof -
  from assms have f: "fold_err (read_line (get_script_extension abbrevs item_size) 0) lines
      (replicate n 0, ([[]], [])) = Inr (scriptx, g')"
    by (simp add: scriptx_of_def read_table_def)
  have "length scriptx = length (replicate n (0::int)) \<and>
      (fst g' \<noteq> [] \<and> fst g' ! 0 = []) \<and>
      (\<forall>c. (\<forall>(char, lastc, field) \<in> set lines. \<not> (char \<le> c \<and> c \<le> lastc)) \<longrightarrow>
        scriptx ! c = replicate n (0::int) ! c)"
  proof (rule read_fold_keeps [where P = "\<lambda>g. fst g \<noteq> [] \<and> fst g ! 0 = []", OF f])
    fix field g v g2
    assume "get_script_extension abbrevs item_size field g = Inr (v, g2)"
      and "fst g \<noteq> [] \<and> fst g ! 0 = []"
    then show "fst g2 \<noteq> [] \<and> fst g2 ! 0 = []" by (rule get_script_extension_head)
  next
    show "fst ([[]] :: nat list list, [] :: string) \<noteq> [] \<and>
      fst ([[]] :: nat list list, [] :: string) ! 0 = []" by simp
  qed
  then show ?thesis by auto
qed


text \<open>
  Claim C6. With one list of Boolean property ids per code point, the loop returns, and
  two code points get the same index exactly when their lists hold the same set of ids;
  the index of a code point is the position of an entry of \<open>bool_props_lists\<close> with its
  set; no two entries of \<open>bool_props_lists\<close> hold the same set; entry 0 is the empty list
  and is there from the start; a code point with no Boolean property gets index 0. A code
  point that no line of ScriptExtensions.txt covers (its script extension list is empty)
  keeps the default offset 0 in \<open>scriptx\<close>, and entry 0 of \<open>script_lists\<close> is the empty
  list.
\<close>

theorem bool_props_full_dedup:
  assumes "length bprops = n"
  shows "(\<exists>bool_props bls. dedup_bool_props n bprops = Inr (bool_props, bls) \<and>
      length bool_props = n \<and>
      (\<forall>c1 < n. \<forall>c2 < n.
         bool_props ! c1 = bool_props ! c2 \<longleftrightarrow> set (bprops ! c1) = set (bprops ! c2)) \<and>
      (\<forall>c < n. bool_props ! c < length bls \<and> set (bls ! (bool_props ! c)) = set (bprops ! c)) \<and>
      (\<forall>i < length bls. \<forall>j < length bls. set (bls ! i) = set (bls ! j) \<longrightarrow> i = j) \<and>
      bls \<noteq> [] \<and> bls ! 0 = [] \<and>
      (\<forall>c < n. bprops ! c = [] \<longrightarrow> bool_props ! c = 0)) \<and>
   (\<forall>abbrevs item_size lines scriptx g.
      scriptx_of abbrevs item_size n lines = Inr (scriptx, g) \<longrightarrow>
      length scriptx = n \<and> fst g \<noteq> [] \<and> fst g ! 0 = [] \<and>
      (\<forall>c < n. (\<forall>(char, lastc, field) \<in> set lines. \<not> (char \<le> c \<and> c \<le> lastc)) \<longrightarrow>
         scriptx ! c = 0))"
proof -
  from bool_fold_inv [OF assms order_refl] obtain st
    where f: "fold_err (bool_props_step bprops) [0..<n] (replicate n 0, [[]]) = Inr st"
      and inv: "bool_inv n bprops n st" by blast
  obtain bp bls where st: "st = (bp, bls)" by (cases st) auto
  from inv st have lbp: "length bp = n" and ne: "bls \<noteq> []" and z: "bls ! 0 = []"
    and dist: "\<And>i j. i < length bls \<Longrightarrow> j < length bls \<Longrightarrow>
        set (bls ! i) = set (bls ! j) \<Longrightarrow> i = j"
    and ix: "\<And>c. c < n \<Longrightarrow> bp ! c < length bls \<and> set (bls ! (bp ! c)) = set (bprops ! c)"
    by (auto simp: bool_inv_def)
  have e: "dedup_bool_props n bprops = Inr (bp, bls)"
    using f st by (simp add: dedup_bool_props_def)
  have eqv: "\<forall>c1 < n. \<forall>c2 < n. bp ! c1 = bp ! c2 \<longleftrightarrow> set (bprops ! c1) = set (bprops ! c2)"
  proof (intro allI impI)
    fix c1 c2 assume c: "c1 < n" "c2 < n"
    note a = ix [OF c(1)] and b = ix [OF c(2)]
    show "bp ! c1 = bp ! c2 \<longleftrightarrow> set (bprops ! c1) = set (bprops ! c2)"
    proof
      assume "bp ! c1 = bp ! c2"
      with a b show "set (bprops ! c1) = set (bprops ! c2)" by simp
    next
      assume "set (bprops ! c1) = set (bprops ! c2)"
      with a b have "set (bls ! (bp ! c1)) = set (bls ! (bp ! c2))" by simp
      with a b show "bp ! c1 = bp ! c2" by (intro dist) simp_all
    qed
  qed
  have emp: "\<forall>c < n. bprops ! c = [] \<longrightarrow> bp ! c = 0"
  proof (intro allI impI)
    fix c assume c: "c < n" and "bprops ! c = []"
    with ix [OF c] z have "set (bls ! (bp ! c)) = set (bls ! 0)" by simp
    moreover from ne have "0 < length bls" by simp
    ultimately show "bp ! c = 0" using ix [OF c] by (intro dist) simp_all
  qed
  have 1: "(\<exists>bool_props bls. dedup_bool_props n bprops = Inr (bool_props, bls) \<and>
      length bool_props = n \<and>
      (\<forall>c1 < n. \<forall>c2 < n.
         bool_props ! c1 = bool_props ! c2 \<longleftrightarrow> set (bprops ! c1) = set (bprops ! c2)) \<and>
      (\<forall>c < n. bool_props ! c < length bls \<and> set (bls ! (bool_props ! c)) = set (bprops ! c)) \<and>
      (\<forall>i < length bls. \<forall>j < length bls. set (bls ! i) = set (bls ! j) \<longrightarrow> i = j) \<and>
      bls \<noteq> [] \<and> bls ! 0 = [] \<and>
      (\<forall>c < n. bprops ! c = [] \<longrightarrow> bool_props ! c = 0))"
    using e lbp eqv ix dist ne z emp by blast
  have 2: "(\<forall>abbrevs item_size lines scriptx g.
      scriptx_of abbrevs item_size n lines = Inr (scriptx, g) \<longrightarrow>
      length scriptx = n \<and> fst g \<noteq> [] \<and> fst g ! 0 = [] \<and>
      (\<forall>c < n. (\<forall>(char, lastc, field) \<in> set lines. \<not> (char \<le> c \<and> c \<le> lastc)) \<longrightarrow>
         scriptx ! c = 0))"
    using scriptx_default by blast
  from 1 2 show ?thesis ..
qed

lemma example_bool_props:
  "dedup_bool_props 4 ([[1, 2], [], [2, 1, 1], []] :: nat list list) = Inr ([1, 0, 1, 0], [[], [1, 2]])"
  by code_simp

lemma example_scriptx:
  "scriptx_of [''Latn'', ''Grek'', ''Copt''] 3 4 [(1, 2, ''Grek Copt'')] = Inr (([0, 3, 3, 0] :: int list), ([[], [1, 2]] :: nat list list, ''Grek Copt''))"
  by code_simp

theorem bool_props_full_dedup_witness:
  "(\<exists>bool_props bls. dedup_bool_props 4 ([[1, 2], [], [2, 1, 1], []] :: nat list list) = Inr (bool_props, bls) \<and>
      length bool_props = 4 \<and>
      (\<forall>c1 < 4. \<forall>c2 < 4.
         bool_props ! c1 = bool_props ! c2 \<longleftrightarrow> set (([[1, 2], [], [2, 1, 1], []] :: nat list list) ! c1) = set (([[1, 2], [], [2, 1, 1], []] :: nat list list) ! c2)) \<and>
      (\<forall>c < 4. bool_props ! c < length bls \<and> set (bls ! (bool_props ! c)) = set (([[1, 2], [], [2, 1, 1], []] :: nat list list) ! c)) \<and>
      (\<forall>i < length bls. \<forall>j < length bls. set (bls ! i) = set (bls ! j) \<longrightarrow> i = j) \<and>
      bls \<noteq> [] \<and> bls ! 0 = [] \<and>
      (\<forall>c < 4. ([[1, 2], [], [2, 1, 1], []] :: nat list list) ! c = [] \<longrightarrow> bool_props ! c = 0)) \<and>
   dedup_bool_props 4 ([[1, 2], [], [2, 1, 1], []] :: nat list list) = Inr ([1, 0, 1, 0], [[], [1, 2]]) \<and>
   scriptx_of [''Latn'', ''Grek'', ''Copt''] 3 4 [(1, 2, ''Grek Copt'')] = Inr (([0, 3, 3, 0] :: int list), ([[], [1, 2]] :: nat list list, ''Grek Copt'')) \<and>
   length ([0, 3, 3, 0] :: int list) = 4 \<and> fst ([[], [1, 2]] :: nat list list, ''Grek Copt'') \<noteq> [] \<and> fst ([[], [1, 2]] :: nat list list, ''Grek Copt'') ! 0 = [] \<and> ([0, 3, 3, 0] :: int list) ! 3 = 0"
proof -
  have l: "length ([[1, 2], [], [2, 1, 1], []] :: nat list list) = 4" by simp
  note t = bool_props_full_dedup [OF l]
  note t2 = t [THEN conjunct2, rule_format, OF example_scriptx]
  have c: "(3::nat) < 4" by simp
  have u: "\<forall>(char, lastc, field) \<in> set ([(1, 2, ''Grek Copt'')] :: (nat \<times> nat \<times> string) list). \<not> (char \<le> (3::nat) \<and> 3 \<le> lastc)"
    by simp
  note t3 = t2 [THEN conjunct2, THEN conjunct2, THEN conjunct2, THEN spec, THEN mp, THEN mp,
    OF c u]
  show ?thesis
    by (intro conjI t [THEN conjunct1] example_bool_props example_scriptx
      t2 [THEN conjunct1] t2 [THEN conjunct2, THEN conjunct1]
      t2 [THEN conjunct2, THEN conjunct2, THEN conjunct1] t3)
qed

section \<open>The caseless sets\<close>

lemma py_get_nat: "i < length xs \<Longrightarrow> py_get xs (int i) = Inr (xs ! i)"
  by (simp add: py_get_def py_index_def)

lemma py_set_nat: "i < length xs \<Longrightarrow> py_set xs (int i) v = Inr (xs[i := v])"
  by (simp add: py_set_def py_index_def)

lemma folded_iff:
  "folded n oc \<longleftrightarrow> length oc = n \<and>
     (\<forall>c < n. oc ! c = 0 \<or>
        (0 \<le> int c + oc ! c \<and> int c + oc ! c < int n \<and> oc ! nat (int c + oc ! c) = 0))"
  by (auto simp: folded_def list_all_iff)

lemma folded_target:
  assumes "folded n oc" and "c < n" and "oc ! c \<noteq> 0"
  shows "\<exists>h < n. int c + oc ! c = int h \<and> oc ! h = 0 \<and> h \<noteq> c"
proof -
  from assms have a: "0 \<le> int c + oc ! c" "int c + oc ! c < int n"
    "oc ! nat (int c + oc ! c) = 0"
    unfolding folded_iff by blast+
  let ?h = "nat (int c + oc ! c)"
  from a have "?h < n" "int c + oc ! c = int ?h" "oc ! ?h = 0" by simp_all
  moreover from this assms(3) have "?h \<noteq> c" by auto
  ultimately show ?thesis by blast
qed

lemma repaired_start:
  assumes "folded n oc"
  shows "repaired n oc oc 0"
  using assms by (simp add: repaired_def folded_iff)

lemma repair_step_inv:
  assumes f: "folded n oc" and r: "repaired n oc oc' k" and k: "k < n"
  shows "\<exists>oc''. repair_step k oc' = Inr oc'' \<and> repaired n oc oc'' (Suc k)"
proof -
  from r have len: "length oc' = n"
    and keep: "\<And>c. c < n \<Longrightarrow> oc ! c \<noteq> 0 \<Longrightarrow> oc' ! c = oc ! c"
    and rt: "\<And>h. h < n \<Longrightarrow> oc ! h = 0 \<Longrightarrow>
         oc' ! h = 0 \<or> (\<exists>c < n. oc ! c \<noteq> 0 \<and> int c + oc ! c = int h \<and> oc' ! h = - (oc ! c))"
    and tg: "\<And>c. c < k \<Longrightarrow> oc ! c \<noteq> 0 \<Longrightarrow> oc' ! nat (int c + oc ! c) \<noteq> 0"
    by (auto simp: repaired_def)
  from k len have gk: "py_get oc' (int k) = Inr (oc' ! k)" by (simp add: py_get_nat)
  show ?thesis
  proof (cases "oc ! k = 0")
    case False
    from folded_target [OF f k False] obtain h where h: "h < n" "int k + oc ! k = int h"
      "oc ! h = 0" "h \<noteq> k" by blast
    from keep [OF k False] have dk: "oc' ! k = oc ! k" .
    from h len have gh: "py_get oc' (int k + oc' ! k) = Inr (oc' ! h)"
      by (simp add: dk py_get_nat)
    show ?thesis
    proof (cases "oc' ! h = 0")
      case True
      let ?oc = "oc'[h := - (oc ! k)]"
      from h len have "py_set oc' (int k + oc' ! k) (- (oc' ! k)) = Inr ?oc"
        by (simp add: dk py_set_nat)
      with gk gh True False dk have step: "repair_step k oc' = Inr ?oc"
        by (simp add: repair_step_def)
      have 1: "length ?oc = n" using len by simp
      have 2: "\<forall>c < n. oc ! c \<noteq> 0 \<longrightarrow> ?oc ! c = oc ! c"
      proof (intro allI impI)
        fix c assume c: "c < n" "oc ! c \<noteq> 0"
        with h(3) have "c \<noteq> h" by auto
        with keep [OF c] show "?oc ! c = oc ! c" by simp
      qed
      have 3: "\<forall>x < n. oc ! x = 0 \<longrightarrow>
         ?oc ! x = 0 \<or> (\<exists>c < n. oc ! c \<noteq> 0 \<and> int c + oc ! c = int x \<and> ?oc ! x = - (oc ! c))"
      proof (intro allI impI)
        fix x assume x: "x < n" "oc ! x = 0"
        show "?oc ! x = 0 \<or> (\<exists>c < n. oc ! c \<noteq> 0 \<and> int c + oc ! c = int x \<and> ?oc ! x = - (oc ! c))"
        proof (cases "x = h")
          case True
          with h len k False show ?thesis by auto
        next
          case False
          with rt [OF x] show ?thesis by simp
        qed
      qed
      have 4: "\<forall>c < Suc k. oc ! c \<noteq> 0 \<longrightarrow> ?oc ! nat (int c + oc ! c) \<noteq> 0"
      proof (intro allI impI)
        fix c assume c: "c < Suc k" "oc ! c \<noteq> 0"
        show "?oc ! nat (int c + oc ! c) \<noteq> 0"
        proof (cases "nat (int c + oc ! c) = h")
          case True
          with h len False show ?thesis by simp
        next
          case nh: False
          from c(1) consider "c < k" | "c = k" by arith
          then show ?thesis
          proof cases
            case 1
            from tg [OF 1 c(2)] nh show ?thesis by simp
          next
            case 2
            with h nh show ?thesis by simp
          qed
        qed
      qed
      have "repaired n oc ?oc (Suc k)"
        unfolding repaired_def by (intro conjI 1 2 3 4)
      with step show ?thesis by blast
    next
      case nz: False
      with gk gh False dk have step: "repair_step k oc' = Inr oc'"
        by (simp add: repair_step_def)
      have 4: "\<forall>c < Suc k. oc ! c \<noteq> 0 \<longrightarrow> oc' ! nat (int c + oc ! c) \<noteq> 0"
      proof (intro allI impI)
        fix c assume c: "c < Suc k" "oc ! c \<noteq> 0"
        from c(1) consider "c < k" | "c = k" by arith
        then show "oc' ! nat (int c + oc ! c) \<noteq> 0"
        proof cases
          case 1
          from tg [OF 1 c(2)] show ?thesis .
        next
          case 2
          with h nz show ?thesis by simp
        qed
      qed
      have "repaired n oc oc' (Suc k)"
        unfolding repaired_def using len keep rt 4 by (intro conjI) blast+
      with step show ?thesis by blast
    qed
  next
    case True
    have 4: "\<forall>c < Suc k. oc ! c \<noteq> 0 \<longrightarrow> oc' ! nat (int c + oc ! c) \<noteq> 0"
    proof (intro allI impI)
      fix c assume c: "c < Suc k" "oc ! c \<noteq> 0"
      with True have "c \<noteq> k" by auto
      with c(1) have "c < k" by simp
      from tg [OF this c(2)] show "oc' ! nat (int c + oc ! c) \<noteq> 0" .
    qed
    have inv: "repaired n oc oc' (Suc k)"
      unfolding repaired_def using len keep rt 4 by (intro conjI) blast+
    from rt [OF k True] show ?thesis
    proof
      assume "oc' ! k = 0"
      with gk have "repair_step k oc' = Inr oc'" by (simp add: repair_step_def)
      with inv show ?thesis by blast
    next
      assume "\<exists>c < n. oc ! c \<noteq> 0 \<and> int c + oc ! c = int k \<and> oc' ! k = - (oc ! c)"
      then obtain c where c: "c < n" "oc ! c \<noteq> 0" "int c + oc ! c = int k"
        "oc' ! k = - (oc ! c)" by blast
      from c have tgt: "int k + oc' ! k = int c" by simp
      from c(1) len have "py_get oc' (int c) = Inr (oc' ! c)" by (simp add: py_get_nat)
      then have gc: "py_get oc' (int k + oc' ! k) = Inr (oc' ! c)"
        by (simp only: tgt)
      from keep [OF c(1,2)] c(2) have "oc' ! c \<noteq> 0" by simp
      with gk gc c have "repair_step k oc' = Inr oc'" by (simp add: repair_step_def)
      with inv show ?thesis by blast
    qed
  qed
qed

lemma repair_inv:
  assumes f: "folded n oc" and k: "k \<le> n"
  shows "\<exists>oc'. fold_err repair_step [0..<k] oc = Inr oc' \<and> repaired n oc oc' k"
  using k
proof (induction k)
  case 0
  from repaired_start [OF f] show ?case by simp
next
  case (Suc k)
  then obtain oc' where a: "fold_err repair_step [0..<k] oc = Inr oc'"
    and r: "repaired n oc oc' k" by auto
  from Suc.prems have "k < n" by simp
  from repair_step_inv [OF f r this] obtain oc''
    where s: "repair_step k oc' = Inr oc''" and r': "repaired n oc oc'' (Suc k)" by blast
  have "fold_err repair_step [0..<Suc k] oc = Inr oc''"
    by (simp add: fold_err_append a s)
  with r' show ?case by blast
qed

lemma caseless_step_shape:
  assumes f: "folded n oc" and r: "repaired n oc oc' n" and c: "c < n"
  shows "caseless_step oc' c sets = Inr sets \<or>
     (\<exists>h c'. h < n \<and> c' < n \<and> oc ! h = 0 \<and> oc ! c \<noteq> 0 \<and> oc ! c' \<noteq> 0 \<and> c' \<noteq> c \<and>
        int c + oc ! c = int h \<and> int c' + oc ! c' = int h \<and>
        caseless_step oc' c sets = Inr (unite (int c) (int h) (int c') sets))"
proof -
  from r have len: "length oc' = n"
    and keep: "\<And>c. c < n \<Longrightarrow> oc ! c \<noteq> 0 \<Longrightarrow> oc' ! c = oc ! c"
    and rt: "\<And>h. h < n \<Longrightarrow> oc ! h = 0 \<Longrightarrow>
         oc' ! h = 0 \<or> (\<exists>c < n. oc ! c \<noteq> 0 \<and> int c + oc ! c = int h \<and> oc' ! h = - (oc ! c))"
    and tg: "\<And>c. c < n \<Longrightarrow> oc ! c \<noteq> 0 \<Longrightarrow> oc' ! nat (int c + oc ! c) \<noteq> 0"
    by (auto simp: repaired_def)
  from c len have gc: "py_get oc' (int c) = Inr (oc' ! c)" by (simp add: py_get_nat)
  show ?thesis
  proof (cases "oc ! c = 0")
    case False
    from folded_target [OF f c False] obtain h where h: "h < n" "int c + oc ! c = int h"
      "oc ! h = 0" "h \<noteq> c" by blast
    from keep [OF c False] have dc: "oc' ! c = oc ! c" .
    from h(1) len have "py_get oc' (int h) = Inr (oc' ! h)" by (simp add: py_get_nat)
    then have gh: "py_get oc' (int c + oc' ! c) = Inr (oc' ! h)" by (simp only: dc h(2))
    from tg [OF c False] h(2) have "oc' ! h \<noteq> 0" by simp
    with rt [OF h(1,3)] obtain c' where c': "c' < n" "oc ! c' \<noteq> 0" "int c' + oc ! c' = int h"
      "oc' ! h = - (oc ! c')" by blast
    show ?thesis
    proof (cases "oc ! c' = oc ! c")
      case True
      with gc gh c'(4) dc have "caseless_step oc' c sets = Inr sets"
        by (simp add: caseless_step_def Let_def)
      then show ?thesis ..
    next
      case ne: False
      with h(2) c'(3) have "c' \<noteq> c" by auto
      have t: "int c + oc' ! c + oc' ! h = int c'"
        using dc h(2) c'(3,4) by simp
      from ne gc gh c'(4) dc
      have "caseless_step oc' c sets =
          Inr (unite (int c) (int c + oc' ! c) (int c + oc' ! c + oc' ! h) sets)"
        by (simp add: caseless_step_def Let_def)
      also have "int c + oc' ! c + oc' ! h = int c'" by (rule t)
      also have "int c + oc' ! c = int h" by (simp only: dc h(2))
      finally have "caseless_step oc' c sets = Inr (unite (int c) (int h) (int c') sets)" .
      with h c' False \<open>c' \<noteq> c\<close> show ?thesis by blast
    qed
  next
    case True
    from rt [OF c True] have "caseless_step oc' c sets = Inr sets"
    proof
      assume z: "oc' ! c = 0"
      with gc have "py_get oc' (int c + oc' ! c) = Inr 0" by simp
      with gc z show ?thesis by (simp add: caseless_step_def Let_def)
    next
      assume "\<exists>c0 < n. oc ! c0 \<noteq> 0 \<and> int c0 + oc ! c0 = int c \<and> oc' ! c = - (oc ! c0)"
      then obtain c0 where c0: "c0 < n" "oc ! c0 \<noteq> 0" "int c0 + oc ! c0 = int c"
        "oc' ! c = - (oc ! c0)" by blast
      from c0 have tgt: "int c + oc' ! c = int c0" by simp
      from c0(1) len have "py_get oc' (int c0) = Inr (oc' ! c0)" by (simp add: py_get_nat)
      then have g0: "py_get oc' (int c + oc' ! c) = Inr (oc' ! c0)" by (simp only: tgt)
      from keep [OF c0(1,2)] c0(4) have "oc' ! c0 = - (oc' ! c)" by simp
      with gc g0 show ?thesis by (simp add: caseless_step_def Let_def)
    qed
    then show ?thesis ..
  qed
qed

lemma fold_flag:
  "fold (\<lambda>x f. if P x then True else f) s b \<longleftrightarrow> b \<or> (\<exists>x \<in> set s. P x)"
  by (induction s arbitrary: b) auto

lemma scan_found_iff:
  "scan_found s c o' t \<longleftrightarrow> c \<in> set s \<or> o' \<in> set s \<or> t \<in> set s"
  unfolding scan_found_def fold_flag by auto

lemma add_member_eq:
  "add_member y (s, found) = (if found \<or> y \<in> set s then (s, True) else (s @ [y], False))"
  unfolding add_member_def prod.case Let_def fold_flag by auto

lemma add_new_eq:
  "add_new s c o' t =
     (if c \<in> set s then s
      else if o' \<in> set (s @ [c]) then s @ [c]
      else if t \<in> set (s @ [c, o']) then s @ [c, o']
      else s @ [c, o', t])"
  by (simp add: add_new_def add_member_eq)

lemma add_new_set:
  "set s \<subseteq> set (add_new s c o' t)" "set (add_new s c o' t) \<subseteq> set s \<union> {c, o', t}"
  by (auto simp: add_new_eq)

lemma add_new_distinct: "distinct s \<Longrightarrow> distinct (add_new s c o' t)"
  by (auto simp: add_new_eq)

lemma unite_fold:
  "fold (unite_set c o' t) sets (acc, app) =
     (acc @ map (\<lambda>s. if scan_found s c o' t then add_new s c o' t else s) sets,
      app \<or> (\<exists>s \<in> set sets. scan_found s c o' t))"
  by (induction sets arbitrary: acc app) (auto simp: unite_set_def)

lemma unite_eq:
  "unite c o' t sets =
     (if \<exists>s \<in> set sets. scan_found s c o' t
      then map (\<lambda>s. if scan_found s c o' t then add_new s c o' t else s) sets
      else sets @ [[c, o', t]])"
proof -
  have "\<not> (\<exists>s \<in> set sets. scan_found s c o' t) \<Longrightarrow>
      map (\<lambda>s. if scan_found s c o' t then add_new s c o' t else s) sets = sets"
    by (induction sets) auto
  then show ?thesis by (auto simp: unite_def unite_fold)
qed

lemma star_iff:
  "star n oc s \<longleftrightarrow> distinct s \<and>
     (\<exists>h < n. oc ! h = 0 \<and> int h \<in> set s \<and> (\<forall>x \<in> set s. member_of n oc h x))"
  by (simp add: star_def member_of_def)

lemma member_of_hub:
  assumes "member_of n oc h0 x" and "oc ! h0 = 0" and "member_of n oc h x" and "oc ! h = 0"
  shows "h0 = h"
proof -
  from assms(1) consider "x = int h0" | c0 where "c0 < n" "x = int c0" "oc ! c0 \<noteq> 0"
    "int c0 + oc ! c0 = int h0"
    unfolding member_of_def by blast
  then show ?thesis
  proof cases
    case 1
    from assms(3) consider "x = int h" | c where "c < n" "x = int c" "oc ! c \<noteq> 0"
      unfolding member_of_def by blast
    then show ?thesis
    proof cases
      case 1
      with \<open>x = int h0\<close> show ?thesis by simp
    next
      case 2
      with \<open>x = int h0\<close> assms(2) show ?thesis by simp
    qed
  next
    case 2
    from assms(3) consider "x = int h" | c where "c < n" "x = int c" "oc ! c \<noteq> 0"
      "int c + oc ! c = int h"
      unfolding member_of_def by blast
    then show ?thesis
    proof cases
      case 1
      with 2 assms(4) show ?thesis by simp
    next
      case (2 c)
      with \<open>x = int c0\<close> \<open>int c0 + oc ! c0 = int h0\<close> show ?thesis by simp
    qed
  qed
qed

lemma unite_inv:
  assumes inv: "classes_inv n oc sets"
    and h: "h < n" "oc ! h = 0"
    and c: "c < n" "oc ! c \<noteq> 0" "int c + oc ! c = int h"
    and c': "c' < n" "oc ! c' \<noteq> 0" "int c' + oc ! c' = int h" "c' \<noteq> c"
  shows "classes_inv n oc (unite (int c) (int h) (int c') sets)"
proof -
  let ?C = "int c" and ?H = "int h" and ?T = "int c'"
  let ?found = "\<lambda>s. scan_found s ?C ?H ?T"
  let ?g = "\<lambda>s. if ?found s then add_new s ?C ?H ?T else s"
  from inv have stars: "\<And>s. s \<in> set sets \<Longrightarrow> star n oc s"
    and disj: "\<And>i j. i < length sets \<Longrightarrow> j < length sets \<Longrightarrow> i \<noteq> j \<Longrightarrow>
        set (sets ! i) \<inter> set (sets ! j) = {}"
    by (auto simp: classes_inv_def)
  have mC: "member_of n oc h ?C" and mH: "member_of n oc h ?H" and mT: "member_of n oc h ?T"
    using c c' by (auto simp: member_of_def)
  have three: "\<And>x. x \<in> {?C, ?H, ?T} \<Longrightarrow> member_of n oc h x"
    using mC mH mT by auto
  have hub: "?H \<in> set s \<and> (\<forall>x \<in> set s. member_of n oc h x)"
    if s: "star n oc s" and fo: "?found s" for s
  proof -
    from s obtain h0 where h0: "h0 < n" "oc ! h0 = 0" "int h0 \<in> set s"
      "\<forall>x \<in> set s. member_of n oc h0 x"
      unfolding star_iff by blast
    from fo obtain x where x: "x \<in> set s" "x \<in> {?C, ?H, ?T}"
      unfolding scan_found_iff by blast
    from h0(4) x(1) have "member_of n oc h0 x" by blast
    from member_of_hub [OF this h0(2) three [OF x(2)] h(2)] have "h0 = h" .
    with h0 show ?thesis by simp
  qed
  have gstar: "star n oc (?g s)" if s: "s \<in> set sets" for s
  proof (cases "?found s")
    case False
    with stars [OF s] show ?thesis by simp
  next
    case True
    note hb = hub [OF stars [OF s] True]
    from stars [OF s] have "distinct s" unfolding star_iff by blast
    then have d: "distinct (add_new s ?C ?H ?T)" by (rule add_new_distinct)
    have "?H \<in> set (add_new s ?C ?H ?T)" using hb add_new_set(1) by blast
    moreover have "\<forall>x \<in> set (add_new s ?C ?H ?T). member_of n oc h x"
    proof
      fix x assume "x \<in> set (add_new s ?C ?H ?T)"
      with add_new_set(2) have "x \<in> set s \<union> {?C, ?H, ?T}" by blast
      with hb three show "member_of n oc h x" by blast
    qed
    ultimately have "star n oc (add_new s ?C ?H ?T)"
      unfolding star_iff using d h by blast
    with True show ?thesis by simp
  qed
  have gsub: "set (?g s) \<subseteq> set s \<union> {?C, ?H, ?T}" for s
    using add_new_set(2) [of s ?C ?H ?T] by auto
  have nofound: "set s \<inter> {?C, ?H, ?T} = {}" if "\<not> ?found s" for s
    using that unfolding scan_found_iff by auto
  have gdisj: "set (?g (sets ! i)) \<inter> set (?g (sets ! j)) = {}"
    if ij: "i < length sets" "j < length sets" "i \<noteq> j" for i j
  proof -
    let ?si = "sets ! i" and ?sj = "sets ! j"
    from ij have mi: "?si \<in> set sets" and mj: "?sj \<in> set sets" by simp_all
    note d = disj [OF ij]
    have both: "\<not> (?found ?si \<and> ?found ?sj)"
    proof
      assume "?found ?si \<and> ?found ?sj"
      with hub [OF stars [OF mi]] hub [OF stars [OF mj]]
      have "?H \<in> set ?si" "?H \<in> set ?sj" by blast+
      with d show False by blast
    qed
    show ?thesis
    proof (cases "?found ?si")
      case True
      with both have nf: "\<not> ?found ?sj" by blast
      from gsub [of ?si] nofound [OF nf] d nf show ?thesis by auto
    next
      case False
      from gsub [of ?sj] nofound [OF False] d False show ?thesis by auto
    qed
  qed
  show ?thesis
  proof (cases "\<exists>s \<in> set sets. ?found s")
    case True
    then have u: "unite ?C ?H ?T sets = map ?g sets" by (simp add: unite_eq)
    have 1: "\<forall>s \<in> set (map ?g sets). star n oc s"
    proof
      fix s assume "s \<in> set (map ?g sets)"
      then obtain s0 where "s0 \<in> set sets" "s = ?g s0" unfolding set_map by blast
      with gstar [of s0] show "star n oc s" by (simp only:)
    qed
    have 2: "\<forall>i < length (map ?g sets). \<forall>j < length (map ?g sets). i \<noteq> j \<longrightarrow>
        set (map ?g sets ! i) \<inter> set (map ?g sets ! j) = {}"
      using gdisj by simp
    show ?thesis unfolding u classes_inv_def by (intro conjI 1 2)
  next
    case False
    then have u: "unite ?C ?H ?T sets = sets @ [[?C, ?H, ?T]]" by (simp add: unite_eq)
    from False have nf: "\<And>s. s \<in> set sets \<Longrightarrow> set s \<inter> {?C, ?H, ?T} = {}"
      using nofound by blast
    have dn: "distinct [?C, ?H, ?T]" using c c' h by auto
    have sn: "star n oc [?C, ?H, ?T]"
      unfolding star_iff using dn h mC mH mT by auto
    have 1: "\<forall>s \<in> set (sets @ [[?C, ?H, ?T]]). star n oc s" using stars sn by auto
    have 2: "\<forall>i < length (sets @ [[?C, ?H, ?T]]). \<forall>j < length (sets @ [[?C, ?H, ?T]]). i \<noteq> j \<longrightarrow>
        set ((sets @ [[?C, ?H, ?T]]) ! i) \<inter> set ((sets @ [[?C, ?H, ?T]]) ! j) = {}"
    proof (intro allI impI)
      fix i j assume i: "i < length (sets @ [[?C, ?H, ?T]])"
        and j: "j < length (sets @ [[?C, ?H, ?T]])" and ne: "i \<noteq> j"
      show "set ((sets @ [[?C, ?H, ?T]]) ! i) \<inter> set ((sets @ [[?C, ?H, ?T]]) ! j) = {}"
      proof (cases "i < length sets")
        case il: True
        show ?thesis
        proof (cases "j < length sets")
          case True
          with il ne disj show ?thesis by (simp add: nth_append)
        next
          case False
          with j have "j = length sets" by simp
          with il nf [of "sets ! i"] show ?thesis by (simp add: nth_append Int_commute)
        qed
      next
        case False
        with i have il: "i = length sets" by simp
        with j ne have jl: "j < length sets" by simp
        with il nf [of "sets ! j"] show ?thesis by (simp add: nth_append Int_commute)
      qed
    qed
    show ?thesis unfolding u classes_inv_def by (intro conjI 1 2)
  qed
qed

lemma caseless_sets_inv:
  assumes f: "folded n oc" and r: "repaired n oc oc' n" and k: "k \<le> n"
  shows "\<exists>sets. fold_err (caseless_step oc') [0..<k] [] = Inr sets \<and> classes_inv n oc sets"
  using k
proof (induction k)
  case 0
  show ?case by (simp add: classes_inv_def)
next
  case (Suc k)
  then obtain sets where a: "fold_err (caseless_step oc') [0..<k] [] = Inr sets"
    and inv: "classes_inv n oc sets" by auto
  from Suc.prems have kn: "k < n" by simp
  from caseless_step_shape [OF f r kn, of sets]
  have "\<exists>sets'. caseless_step oc' k sets = Inr sets' \<and> classes_inv n oc sets'"
  proof
    assume "caseless_step oc' k sets = Inr sets"
    with inv show ?thesis by blast
  next
    assume "\<exists>h c'. h < n \<and> c' < n \<and> oc ! h = 0 \<and> oc ! k \<noteq> 0 \<and> oc ! c' \<noteq> 0 \<and> c' \<noteq> k \<and>
        int k + oc ! k = int h \<and> int c' + oc ! c' = int h \<and>
        caseless_step oc' k sets = Inr (unite (int k) (int h) (int c') sets)"
    then obtain h c' where t: "h < n" "c' < n" "oc ! h = 0" "oc ! k \<noteq> 0" "oc ! c' \<noteq> 0"
      "c' \<noteq> k" "int k + oc ! k = int h" "int c' + oc ! c' = int h"
      and s: "caseless_step oc' k sets = Inr (unite (int k) (int h) (int c') sets)" by blast
    from unite_inv [OF inv t(1,3) kn t(4,7) t(2,5,8,6)] s show ?thesis by blast
  qed
  then obtain sets' where s: "caseless_step oc' k sets = Inr sets'"
    and inv': "classes_inv n oc sets'" by blast
  have "fold_err (caseless_step oc') [0..<Suc k] [] = Inr sets'"
    by (simp add: fold_err_append a s)
  with inv' show ?case by blast
qed

lemma adjacent_sym: "adjacent oc a b \<longleftrightarrow> adjacent oc b a"
  by (auto simp: adjacent_def)

lemma member_adjacent:
  assumes r: "repaired n oc oc' n" and m: "member_of n oc h x" and ne: "x \<noteq> int h"
  shows "adjacent oc' x (int h)"
proof -
  from m ne obtain c where c: "c < n" "x = int c" "oc ! c \<noteq> 0" "int c + oc ! c = int h"
    unfolding member_of_def by blast
  from r c have "oc' ! c = oc ! c" "length oc' = n" by (auto simp: repaired_def)
  with c show ?thesis by (simp add: adjacent_def)
qed

lemma star_within_two:
  assumes r: "repaired n oc oc' n" and s: "star n oc s" and a: "a \<in> set s" and b: "b \<in> set s"
  shows "within_two oc' a b"
proof -
  from s obtain h where h: "h < n" "\<forall>x \<in> set s. member_of n oc h x"
    unfolding star_iff by blast
  from r have len: "length oc' = n" by (simp add: repaired_def)
  from h a b have ma: "member_of n oc h a" and mb: "member_of n oc h b" by blast+
  show ?thesis
  proof (cases "a = int h")
    case True
    show ?thesis
    proof (cases "b = int h")
      case True
      with \<open>a = int h\<close> show ?thesis by (simp add: within_two_def)
    next
      case False
      from member_adjacent [OF r mb False] True have "adjacent oc' a b"
        by (simp add: adjacent_sym)
      then show ?thesis by (simp add: within_two_def)
    qed
  next
    case na: False
    note aa = member_adjacent [OF r ma na]
    show ?thesis
    proof (cases "b = int h")
      case True
      with aa show ?thesis by (simp add: within_two_def)
    next
      case False
      from member_adjacent [OF r mb False] have "adjacent oc' (int h) b"
        by (simp add: adjacent_sym)
      with aa h(1) len have "\<exists>z \<in> set [0..<length oc']. adjacent oc' a (int z) \<and> adjacent oc' (int z) b"
        by (intro bexI [of _ h]) simp_all
      then show ?thesis by (simp add: within_two_def list_ex_iff)
    qed
  qed
qed

lemma drop_concat_take:
  "k \<le> length xss \<Longrightarrow> drop (sum_list (map length (take k xss))) (concat xss) = concat (drop k xss)"
proof (induction xss arbitrary: k)
  case Nil
  then show ?case by simp
next
  case (Cons xs xss)
  show ?case
  proof (cases k)
    case 0
    then show ?thesis by simp
  next
    case (Suc k')
    with Cons.prems have "k' \<le> length xss" by simp
    from Cons.IH [OF this] Suc show ?thesis by simp
  qed
qed

lemma caseless_run:
  assumes "k < length sets"
  shows "take (length (sets ! k) + 1) (drop (set_offset sets k) (ucd_caseless_sets sets)) =
     sort (sets ! k) @ [NOTACHAR]"
proof -
  let ?f = "\<lambda>s :: int list. sort s @ [NOTACHAR]"
  let ?xss = "map ?f sets"
  have m: "map (\<lambda>s. length s + 1) (take k sets) = map length (take k ?xss)"
    by (simp add: take_map)
  have "drop (set_offset sets k) (ucd_caseless_sets sets) =
      drop (sum_list (map length (take k ?xss))) (concat ?xss)"
    unfolding set_offset_def ucd_caseless_sets_def m by simp
  also have "\<dots> = concat (drop k ?xss)"
    using assms by (intro drop_concat_take) simp
  also have "drop k ?xss = ?xss ! k # drop (Suc k) ?xss"
    using assms by (intro Cons_nth_drop_Suc [symmetric]) simp
  finally have "drop (set_offset sets k) (ucd_caseless_sets sets) =
      ?f (sets ! k) @ concat (drop (Suc k) ?xss)"
    using assms by simp
  then show ?thesis by simp
qed

text \<open>
  Claim C4, as amended. For a folded table of deltas (every non-zero delta leads to a code
  point of the table whose own delta is zero), both scans of the table return, and the sets they
  produce are pairwise disjoint; a set has no repetition, and any two of its members are
  within two hops in the case-delta graph, a hop following a delta in either direction;
  and the table written holds, at the offset of a set, the members of the set in
  ascending order followed by \<open>NOTACHAR\<close>. For tables that are not folded neither
  disjointness nor the two hops hold in general.
\<close>

theorem caseless_sets_sound:
  assumes "folded n other_case"
  shows "\<exists>oc sets. repair n other_case = Inr oc \<and> caseless_sets_of n oc = Inr sets \<and>
     (\<forall>i < length sets. \<forall>j < length sets. i \<noteq> j \<longrightarrow> set (sets ! i) \<inter> set (sets ! j) = {}) \<and>
     (\<forall>s \<in> set sets. distinct s \<and> (\<forall>a \<in> set s. \<forall>b \<in> set s. within_two oc a b)) \<and>
     (\<forall>k < length sets.
        take (length (sets ! k) + 1) (drop (set_offset sets k) (ucd_caseless_sets sets)) =
          sort (sets ! k) @ [NOTACHAR] \<and>
        sorted (sort (sets ! k)) \<and> set (sort (sets ! k)) = set (sets ! k) \<and>
        length (sort (sets ! k)) = length (sets ! k))"
proof -
  from repair_inv [OF assms order_refl] obtain oc
    where rp: "repair n other_case = Inr oc" and r: "repaired n other_case oc n"
    unfolding repair_def by blast
  from caseless_sets_inv [OF assms r order_refl] obtain sets
    where cs: "caseless_sets_of n oc = Inr sets" and inv: "classes_inv n other_case sets"
    unfolding caseless_sets_of_def by blast
  from inv have 1: "\<forall>i < length sets. \<forall>j < length sets. i \<noteq> j \<longrightarrow>
      set (sets ! i) \<inter> set (sets ! j) = {}"
    by (simp add: classes_inv_def)
  have 2: "\<forall>s \<in> set sets. distinct s \<and> (\<forall>a \<in> set s. \<forall>b \<in> set s. within_two oc a b)"
  proof
    fix s assume "s \<in> set sets"
    with inv have st: "star n other_case s" by (simp add: classes_inv_def)
    then have "distinct s" by (simp add: star_def)
    moreover have "\<forall>a \<in> set s. \<forall>b \<in> set s. within_two oc a b"
      using star_within_two [OF r st] by blast
    ultimately show "distinct s \<and> (\<forall>a \<in> set s. \<forall>b \<in> set s. within_two oc a b)" ..
  qed
  have 3: "\<forall>k < length sets.
        take (length (sets ! k) + 1) (drop (set_offset sets k) (ucd_caseless_sets sets)) =
          sort (sets ! k) @ [NOTACHAR] \<and>
        sorted (sort (sets ! k)) \<and> set (sort (sets ! k)) = set (sets ! k) \<and>
        length (sort (sets ! k)) = length (sets ! k)"
    using caseless_run by simp
  from rp cs 1 2 3 show ?thesis by blast
qed

lemma example_folded: "folded 8 ([0, 2, 2, 0, 0, -2, -3, -3] :: int list)"
  by code_simp

lemma example_repair: "repair 8 ([0, 2, 2, 0, 0, -2, -3, -3] :: int list) = Inr ([0, 2, 2, -2, -2, -2, -3, -3] :: int list)"
  by code_simp

lemma example_sets: "caseless_sets_of 8 ([0, 2, 2, -2, -2, -2, -3, -3] :: int list) = Inr ([[5, 3, 1, 6], [7, 4, 2]] :: int list list)"
  by code_simp

theorem caseless_sets_sound_witness:
  "folded 8 ([0, 2, 2, 0, 0, -2, -3, -3] :: int list) \<and> repair 8 ([0, 2, 2, 0, 0, -2, -3, -3] :: int list) = Inr ([0, 2, 2, -2, -2, -2, -3, -3] :: int list) \<and>
   caseless_sets_of 8 ([0, 2, 2, -2, -2, -2, -3, -3] :: int list) = Inr ([[5, 3, 1, 6], [7, 4, 2]] :: int list list) \<and>
   set (([[5, 3, 1, 6], [7, 4, 2]] :: int list list) ! 0) \<inter> set (([[5, 3, 1, 6], [7, 4, 2]] :: int list list) ! 1) = {} \<and>
   distinct (([[5, 3, 1, 6], [7, 4, 2]] :: int list list) ! 0) \<and> within_two ([0, 2, 2, -2, -2, -2, -3, -3] :: int list) 5 6 \<and>
   take (length (([[5, 3, 1, 6], [7, 4, 2]] :: int list list) ! 1) + 1) (drop (set_offset ([[5, 3, 1, 6], [7, 4, 2]] :: int list list) 1) (ucd_caseless_sets ([[5, 3, 1, 6], [7, 4, 2]] :: int list list))) =
     sort (([[5, 3, 1, 6], [7, 4, 2]] :: int list list) ! 1) @ [NOTACHAR]"
proof -
  from caseless_sets_sound [OF example_folded] obtain oc sets
    where rp: "repair 8 ([0, 2, 2, 0, 0, -2, -3, -3] :: int list) = Inr oc" and cs: "caseless_sets_of 8 oc = Inr sets"
      and 1: "\<forall>i < length sets. \<forall>j < length sets. i \<noteq> j \<longrightarrow>
        set (sets ! i) \<inter> set (sets ! j) = {}"
      and 2: "\<forall>s \<in> set sets. distinct s \<and> (\<forall>a \<in> set s. \<forall>b \<in> set s. within_two oc a b)"
      and 3: "\<forall>k < length sets.
        take (length (sets ! k) + 1) (drop (set_offset sets k) (ucd_caseless_sets sets)) =
          sort (sets ! k) @ [NOTACHAR] \<and>
        sorted (sort (sets ! k)) \<and> set (sort (sets ! k)) = set (sets ! k) \<and>
        length (sort (sets ! k)) = length (sets ! k)"
    by blast
  from rp have oc: "oc = ([0, 2, 2, -2, -2, -2, -3, -3] :: int list)" by (simp add: example_repair)
  from cs have sets: "sets = ([[5, 3, 1, 6], [7, 4, 2]] :: int list list)" by (simp add: oc example_sets)
  have l0: "0 < length ([[5, 3, 1, 6], [7, 4, 2]] :: int list list)" and l1: "1 < length ([[5, 3, 1, 6], [7, 4, 2]] :: int list list)" and ne: "(0::nat) \<noteq> 1" by simp_all
  note d = 1 [unfolded sets, rule_format, OF l0 l1 ne]
  have m0: "([[5, 3, 1, 6], [7, 4, 2]] :: int list list) ! 0 \<in> set ([[5, 3, 1, 6], [7, 4, 2]] :: int list list)" by simp
  note s0 = 2 [unfolded sets oc, THEN bspec, OF m0]
  have a5: "5 \<in> set (([[5, 3, 1, 6], [7, 4, 2]] :: int list list) ! 0)" and a6: "6 \<in> set (([[5, 3, 1, 6], [7, 4, 2]] :: int list list) ! 0)" by simp_all
  note w = s0 [THEN conjunct2, THEN bspec, OF a5, THEN bspec, OF a6]
  note run = 3 [unfolded sets, rule_format, OF l1, THEN conjunct1]
  show ?thesis
    by (intro conjI example_folded example_repair example_sets d s0 [THEN conjunct1] w run)
qed

theorem caseless_sets_not_sound_counterexample:
  "repair 4 [1, 1, -1, -3] = Inr [1, 1, -1, -3] \<and>
   caseless_sets_of 4 [1, 1, -1, -3] = Inr [[0, 1, 2, 3]] \<and>
   \<not> within_two [1, 1, -1, -3] 3 2 \<and>
   repair 7 [1, 1, 1, 1, 1, -1, -4] = Inr [1, 1, 1, 1, 1, -1, -4] \<and>
   caseless_sets_of 7 [1, 1, 1, 1, 1, -1, -4] = Inr [[0, 1, 2, 6], [3, 4, 5, 6, 2]] \<and>
   set [0, 1, 2, 6 :: int] \<inter> set [3, 4, 5, 6, 2] \<noteq> {}"
  by code_simp

text \<open>
  Claim C3. The claim is that every one of \<open>c\<close>, \<open>o\<close>, \<open>t\<close> that an existing set lacks is
  added to it. The code does not do so: on the deltas \<open>1 \<rightarrow> 2 \<rightarrow> 3 \<rightarrow> 4\<close> the set
  \<open>[1, 2, 3]\<close> exists when code point 2 yields the three characters 2, 3 and 4; the set
  holds 2 and 3, yet 4 is not added, because \<open>found\<close> is still set from 2 when 4 is
  looked for. The set stays \<open>[1, 2, 3]\<close> and code point 4 keeps the offset 0.
\<close>

theorem caseless_member_not_added:
  "repair 5 [0, 1, 1, 1, 0] = Inr [0, 1, 1, 1, -1] \<and>
   caseless_sets_of 2 [0, 1, 1, 1, -1] = Inr [[1, 2, 3]] \<and>
   caseless_step [0, 1, 1, 1, -1] 2 [[1, 2, 3]] = Inr (unite 2 3 4 [[1, 2, 3]]) \<and>
   scan_found [1, 2, 3] 2 3 4 \<and>
   unite 2 3 4 [[1, 2, 3]] = [[1, 2, 3]] \<and>
   caseless 5 [0, 1, 1, 1, 0] = Inr ([0, 1, 1, 1, -1], [[1, 2, 3]], [0, 1, 1, 1, 0])"
  by code_simp

end
